theory Spec2Isabelle
  imports Complex_Main "HOL-Library.Sublist" "HOL-Library.Word" "HOL-Library.Log_Nat"
begin

section \<open>Data model of the reducer (App.reducer.ts)\<close>

text \<open>
  \<^verbatim>\<open>FileItem\<close>, \<^verbatim>\<open>FileStatus\<close>, \<^verbatim>\<open>ProcessingRequest\<close> and \<^verbatim>\<open>AppState\<close> as the source
  declares them. The field names of \<^verbatim>\<open>FileItem\<close> carry the prefix \<open>file_\<close> because
  \<open>id\<close> and \<open>size\<close> are constants of HOL. A JavaScript \<^verbatim>\<open>Map\<close> is an association list
  in insertion order with unique keys. Optional fields are \<open>option\<close>s. Numbers that the
  code only ever computes as non-negative integers are \<open>nat\<close>; the percentage is an
  \<open>int\<close>, computed as the code computes it, in double-precision arithmetic.
\<close>

record FileItem =
  file_id :: string
  file_name :: string
  file_path :: string
  file_size :: nat
  file_preview :: string

datatype FileStatus = Pending | Processing | Completed | Error

datatype RequestStatus = StatusProcessing | StatusSuccess | StatusError

record ProcessingRequest =
  status :: RequestStatus
  progress :: int
  processedFiles :: "(string \<times> FileStatus) list"
  currentProcessingIndex :: nat
  isCancelling :: bool

record AppState =
  isDragging :: bool
  files :: "FileItem list"
  outputFolder :: "string option"
  processingRequest :: "ProcessingRequest option"

text \<open>
  The browser's \<^verbatim>\<open>File\<close> objects of the \<^verbatim>\<open>FILES_SELECTED\<close> payload. The two effects the
  reducer performs on each of them, \<^verbatim>\<open>crypto.randomUUID()\<close> and
  \<^verbatim>\<open>URL.createObjectURL(file)\<close>, are part of the payload: \<open>sel_uuid\<close> and \<open>sel_url\<close>
  are the values those calls return for this file.
\<close>

record SelectedFile =
  sel_type :: string
  sel_name :: string
  sel_path :: "string option"
  sel_size :: nat
  sel_uuid :: string
  sel_url :: string

datatype AppAction =
    FILES_SELECTED "SelectedFile list"
  | REMOVE_FILE_BUTTON_CLICKED nat
  | CLEAR_FILES_BUTTON_CLICKED
  | OUTPUT_FOLDER_SELECTED "string option"
  | DRAG_ENTERED
  | DRAG_LEFT
  | REMOVE_BACKGROUND_BUTTON_CLICKED
  | FILE_STATUS_CHANGED string FileStatus
  | PROCESSING_PROGRESS_CHANGED nat
  | PROCESSING_COMPLETED
  | CANCEL_BUTTON_CLICKED
  | RESET_BUTTON_CLICKED
  | CANCEL_COMPLETE

definition initialState :: AppState where
  "initialState =
     \<lparr>isDragging = False, files = [], outputFolder = None, processingRequest = None\<rparr>"

subsection \<open>Helpers of the reducer\<close>

text \<open>\<^verbatim>\<open>Map.prototype.set\<close>: an existing key keeps its position, a new key goes last.\<close>

fun map_set :: "('k \<times> 'v) list \<Rightarrow> 'k \<Rightarrow> 'v \<Rightarrow> ('k \<times> 'v) list" where
  "map_set [] k v = [(k, v)]"
| "map_set ((k', v') # m) k v = (if k' = k then (k, v) # m else (k', v') # map_set m k v)"

text \<open>\<^verbatim>\<open>Map.prototype.get\<close>, with \<open>None\<close> for \<^verbatim>\<open>undefined\<close>.\<close>

fun map_get :: "('k \<times> 'v) list \<Rightarrow> 'k \<Rightarrow> 'v option" where
  "map_get [] k = None"
| "map_get ((k', v') # m) k = (if k' = k then Some v' else map_get m k)"

text \<open>\<^verbatim>\<open>updateMap\<close> copies the map and sets the key in the copy.\<close>

definition updateMap :: "('k \<times> 'v) list \<Rightarrow> 'k \<Rightarrow> 'v \<Rightarrow> ('k \<times> 'v) list" where
  "updateMap m k v = map_set m k v"

text \<open>\<^verbatim>\<open>Math.round\<close>: the nearest integer, a tie going up.\<close>

definition math_round :: "rat \<Rightarrow> int" where
  "math_round x = \<lfloor>x + 1 / 2\<rfloor>"

text \<open>
  The numbers of JavaScript are IEEE 754 doubles: \<^verbatim>\<open>/\<close> and \<^verbatim>\<open>*\<close> give the double nearest
  to the exact result, a tie going to the even significand. A double is modelled by the
  rational it denotes. \<open>toDouble x\<close> scales \<open>x\<close> to a significand of 53 bits, rounds
  it to an integer and scales back. Exponent range, infinities and \<^verbatim>\<open>NaN\<close> play no role
  here: the operands are lengths and indices of arrays, which are below \<open>2^32\<close> and so
  exact doubles, and their quotients and the products by 100 are normal numbers.
\<close>

definition roundHalfEven :: "rat \<Rightarrow> int" where
  "roundHalfEven x =
     (let f = \<lfloor>x\<rfloor>
      in if x < rat_of_int f + 1 / 2 then f
         else if rat_of_int f + 1 / 2 < x then f + 1
         else if even f then f
         else f + 1)"

definition pow2 :: "int \<Rightarrow> rat" where
  "pow2 k = (if 0 \<le> k then 2 ^ nat k else 1 / 2 ^ nat (- k))"

text \<open>The exponent \<open>k\<close> with \<open>2^k \<le> x < 2^(k + 1)\<close>, for a positive \<open>x\<close>.\<close>

definition log2floor :: "rat \<Rightarrow> int" where
  "log2floor x =
     (case quotient_of x of
        (p, q) \<Rightarrow> (let k = bitlen p - bitlen q in if pow2 k \<le> x then k else k - 1))"

definition toDouble :: "rat \<Rightarrow> rat" where
  "toDouble x =
     (if x = 0 then 0
      else (let e = log2floor \<bar>x\<bar> - 52
            in sgn x * rat_of_int (roundHalfEven (\<bar>x\<bar> / pow2 e)) * pow2 e))"

text \<open>
  The expression \<^verbatim>\<open>total > 0 ? Math.round((count / total) * 100) : 0\<close> that both
  \<^verbatim>\<open>FILE_STATUS_CHANGED\<close> and \<^verbatim>\<open>PROCESSING_PROGRESS_CHANGED\<close> evaluate: a division and
  a multiplication of doubles, then \<^verbatim>\<open>Math.round\<close>.
\<close>

definition percentOf :: "nat \<Rightarrow> nat \<Rightarrow> int" where
  "percentOf cnt tot =
     (if tot > 0
      then math_round (toDouble (toDouble (rat_of_nat cnt / rat_of_nat tot) * 100))
      else 0)"

definition isFinished :: "FileStatus \<Rightarrow> bool" where
  "isFinished st \<longleftrightarrow> st = Completed \<or> st = Error"

text \<open>\<^verbatim>\<open>Array.from(m.values()).filter(completed or error).length\<close>\<close>

definition completedCount :: "(string \<times> FileStatus) list \<Rightarrow> nat" where
  "completedCount m = length (filter isFinished (map snd m))"

text \<open>ASCII lower case, for the \<^verbatim>\<open>/i\<close> flag of the file-name pattern.\<close>

definition lower_char :: "char \<Rightarrow> char" where
  "lower_char c =
     (let n = of_char c :: nat in if 65 \<le> n \<and> n \<le> 90 then char_of (n + 32) else c)"

text \<open>\<^verbatim>\<open>/\.(svg|png|jpg|jpeg)$/i.test(name)\<close>\<close>

definition hasImageExtension :: "string \<Rightarrow> bool" where
  "hasImageExtension nm =
     (let l = map lower_char nm
      in suffix ''.svg'' l \<or> suffix ''.png'' l \<or> suffix ''.jpg'' l \<or> suffix ''.jpeg'' l)"

definition isImageFile :: "SelectedFile \<Rightarrow> bool" where
  "isImageFile f \<longleftrightarrow> prefix ''image/'' (sel_type f) \<or> hasImageExtension (sel_name f)"

text \<open>\<^verbatim>\<open>path: file.path || file.name\<close>: an absent or empty path falls back to the name.\<close>

definition toFileItem :: "SelectedFile \<Rightarrow> FileItem" where
  "toFileItem f =
     \<lparr>file_id = sel_uuid f,
      file_name = sel_name f,
      file_path = (case sel_path f of None \<Rightarrow> sel_name f
                   | Some p \<Rightarrow> if p = [] then sel_name f else p),
      file_size = sel_size f,
      file_preview = sel_url f\<rparr>"

text \<open>\<^verbatim>\<open>files.filter((_, i) => i !== index)\<close>\<close>

definition removeAt :: "nat \<Rightarrow> 'a list \<Rightarrow> 'a list" where
  "removeAt i xs = take i xs @ drop (Suc i) xs"

text \<open>The map that \<^verbatim>\<open>REMOVE_BACKGROUND_BUTTON_CLICKED\<close> builds with \<^verbatim>\<open>forEach\<close>.\<close>

definition initialStatus :: "FileItem list \<Rightarrow> (string \<times> FileStatus) list" where
  "initialStatus fs = foldl (\<lambda>m f. map_set m (file_id f) Pending) [] fs"

subsection \<open>The reducer\<close>

text \<open>
  One equation per \<^verbatim>\<open>case\<close> of the \<^verbatim>\<open>switch\<close>, in the order of the source. Revoking
  object URLs changes nothing in the state and is left out.
\<close>

fun appReducer :: "AppState \<Rightarrow> AppAction \<Rightarrow> AppState" where
  "appReducer state (FILES_SELECTED payload) =
     state\<lparr>files := files state @ map toFileItem (filter isImageFile payload)\<rparr>"
| "appReducer state (REMOVE_FILE_BUTTON_CLICKED payload) =
     state\<lparr>files := removeAt payload (files state)\<rparr>"
| "appReducer state CLEAR_FILES_BUTTON_CLICKED =
     state\<lparr>files := [], processingRequest := None\<rparr>"
| "appReducer state (OUTPUT_FOLDER_SELECTED payload) =
     state\<lparr>outputFolder :=
       (case payload of None \<Rightarrow> None | Some p \<Rightarrow> if p = [] then None else Some p)\<rparr>"
| "appReducer state DRAG_ENTERED = state\<lparr>isDragging := True\<rparr>"
| "appReducer state DRAG_LEFT = state\<lparr>isDragging := False\<rparr>"
| "appReducer state REMOVE_BACKGROUND_BUTTON_CLICKED =
     state\<lparr>processingRequest := Some
       \<lparr>status = StatusProcessing,
        progress = 0,
        processedFiles = initialStatus (files state),
        currentProcessingIndex = 0,
        isCancelling = False\<rparr>\<rparr>"
| "appReducer state (FILE_STATUS_CHANGED fileId st) =
     (case processingRequest state of
        None \<Rightarrow> state
      | Some req \<Rightarrow>
          (let updatedProcessedFiles = updateMap (processedFiles req) fileId st;
               completed = completedCount updatedProcessedFiles;
               totalFilesForStatus = length (files state);
               newProgress = percentOf completed totalFilesForStatus
           in state\<lparr>processingRequest := Some
                (req\<lparr>processedFiles := updatedProcessedFiles, progress := newProgress\<rparr>)\<rparr>))"
| "appReducer state (PROCESSING_PROGRESS_CHANGED payload) =
     (case processingRequest state of
        None \<Rightarrow> state
      | Some req \<Rightarrow>
          (let totalFilesForProgress = length (files state);
               progressForIndex = percentOf payload totalFilesForProgress
           in state\<lparr>processingRequest := Some
                (req\<lparr>currentProcessingIndex := payload, progress := progressForIndex\<rparr>)\<rparr>))"
| "appReducer state PROCESSING_COMPLETED =
     (case processingRequest state of
        None \<Rightarrow> state
      | Some req \<Rightarrow>
          state\<lparr>processingRequest := Some (req\<lparr>status := StatusSuccess, progress := 100\<rparr>)\<rparr>)"
| "appReducer state CANCEL_BUTTON_CLICKED =
     (case processingRequest state of
        None \<Rightarrow> state
      | Some req \<Rightarrow> state\<lparr>processingRequest := Some (req\<lparr>isCancelling := True\<rparr>)\<rparr>)"
| "appReducer state CANCEL_COMPLETE = state\<lparr>processingRequest := None\<rparr>"
| "appReducer state RESET_BUTTON_CLICKED = state\<lparr>files := [], processingRequest := None\<rparr>"

section \<open>What the component reads from the state (App component)\<close>

text \<open>
  The values the component derives from the reducer state on every render:
  \<^verbatim>\<open>processingRequest?.status === "processing"\<close>,
  \<^verbatim>\<open>processingRequest?.processedFiles ?? new Map()\<close>,
  \<^verbatim>\<open>processingRequest?.isCancelling ?? false\<close>, the status shown for a file
  (\<^verbatim>\<open>processedFiles.get(file.id) || "pending"\<close>), \<^verbatim>\<open>isComplete\<close>, \<^verbatim>\<open>getProgress\<close>, and the
  conditions under which the start button is rendered and enabled.
\<close>

definition isProcessing :: "AppState \<Rightarrow> bool" where
  "isProcessing state =
     (case processingRequest state of None \<Rightarrow> False | Some req \<Rightarrow> status req = StatusProcessing)"

definition processedFilesOf :: "AppState \<Rightarrow> (string \<times> FileStatus) list" where
  "processedFilesOf state =
     (case processingRequest state of None \<Rightarrow> [] | Some req \<Rightarrow> processedFiles req)"

definition isCancellingOf :: "AppState \<Rightarrow> bool" where
  "isCancellingOf state =
     (case processingRequest state of None \<Rightarrow> False | Some req \<Rightarrow> isCancelling req)"

definition fileStatusOf :: "AppState \<Rightarrow> string \<Rightarrow> FileStatus" where
  "fileStatusOf state fileId =
     (case map_get (processedFilesOf state) fileId of None \<Rightarrow> Pending | Some st \<Rightarrow> st)"

definition isComplete :: "AppState \<Rightarrow> bool" where
  "isComplete state =
     (if length (files state) = 0 then False
      else if length (processedFilesOf state) = 0 then False
      else list_all isFinished (map snd (processedFilesOf state)))"

definition getProgress :: "AppState \<Rightarrow> int" where
  "getProgress state =
     (if isComplete state then 100
      else (case processingRequest state of None \<Rightarrow> 0 | Some req \<Rightarrow> progress req))"

text \<open>\<^verbatim>\<open>!outputFolder\<close>: absent, or the empty string.\<close>

definition noOutputFolder :: "AppState \<Rightarrow> bool" where
  "noOutputFolder state =
     (case outputFolder state of None \<Rightarrow> True | Some folder \<Rightarrow> folder = [])"

text \<open>
  The "Remove background" button is rendered when the run is neither complete nor
  processing, and carries
  \<^verbatim>\<open>disabled={files.length === 0 || !outputFolder || isProcessing}\<close>.
\<close>

definition startButtonDisabled :: "AppState \<Rightarrow> bool" where
  "startButtonDisabled state \<longleftrightarrow>
     length (files state) = 0 \<or> noOutputFolder state \<or> isProcessing state"

definition startButtonEnabled :: "AppState \<Rightarrow> bool" where
  "startButtonEnabled state \<longleftrightarrow>
     \<not> isComplete state \<and> \<not> isProcessing state \<and> \<not> startButtonDisabled state"

section \<open>The processing loop (handleStart of the reducer-based component)\<close>

text \<open>
  \<^verbatim>\<open>handleStart\<close> is an asynchronous function: between two of its dispatches the three
  awaited services run, and the user may click Cancel while one of them is pending.
  What the world does to item \<open>i\<close> is an \<open>ItemEnv\<close>: for each of the three awaited calls
  (\<^verbatim>\<open>generateMask\<close>, \<^verbatim>\<open>applyMask\<close>, \<^verbatim>\<open>save\<close>), whether it throws and whether the Cancel
  button is clicked while it is pending. A click dispatches \<^verbatim>\<open>CANCEL_BUTTON_CLICKED\<close>,
  and the effect that copies \<^verbatim>\<open>isCancelling\<close> into \<^verbatim>\<open>isCancellingRef\<close> has run by the time
  the awaited call settles. A call that is never reached (an earlier one threw, or the
  loop was left) has no effect, whatever its entry says. \<^verbatim>\<open>save\<close> throws when the write
  fails and also when \<^verbatim>\<open>createFileName\<close> is rejected. No other event reaches the
  reducer during a run: while the run is processing, the controls that add, remove or
  clear files, choose the folder or start a run are disabled or not rendered.

  The run is the list of actions in the order in which the reducer receives them.
\<close>

record ItemEnv =
  maskFails :: bool
  applyFails :: bool
  saveFails :: bool
  cancelDuringMask :: bool
  cancelDuringApply :: bool
  cancelDuringSave :: bool

definition clickCancel :: "bool \<Rightarrow> AppAction list" where
  "clickCancel clicked = (if clicked then [CANCEL_BUTTON_CLICKED] else [])"

text \<open>
  The body of the \<^verbatim>\<open>for\<close> loop after its first cancellation check, for the file at
  index \<open>i\<close>. The result is the actions dispatched, the value of
  \<^verbatim>\<open>isCancellingRef.current\<close> afterwards, and whether the loop was left with \<^verbatim>\<open>break\<close>.
\<close>

definition processFile :: "nat \<Rightarrow> FileItem \<Rightarrow> ItemEnv \<Rightarrow> AppAction list \<times> bool \<times> bool" where
  "processFile i file e =
     (let started = [PROCESSING_PROGRESS_CHANGED i, FILE_STATUS_CHANGED (file_id file) Processing];
          failed = [FILE_STATUS_CHANGED (file_id file) Error];
          a1 = started @ clickCancel (cancelDuringMask e)
      in if maskFails e then (a1 @ failed, cancelDuringMask e, False)
         else if cancelDuringMask e then (a1 @ [CANCEL_COMPLETE], True, True)
         else
           (let a2 = a1 @ clickCancel (cancelDuringApply e)
            in if applyFails e then (a2 @ failed, cancelDuringApply e, False)
               else if cancelDuringApply e then (a2 @ [CANCEL_COMPLETE], True, True)
               else
                 (let a3 = a2 @ clickCancel (cancelDuringSave e)
                  in if saveFails e then (a3 @ failed, cancelDuringSave e, False)
                     else if cancelDuringSave e then (a3 @ [CANCEL_COMPLETE], True, True)
                     else (a3 @ [FILE_STATUS_CHANGED (file_id file) Completed], False, False))))"

text \<open>
  The \<^verbatim>\<open>for\<close> loop from index \<open>i\<close> over the remaining files, started with the current
  value of the ref: the actions dispatched and the value of the ref when the loop ends.
\<close>

fun processFiles :: "bool \<Rightarrow> nat \<Rightarrow> FileItem list \<Rightarrow> (nat \<Rightarrow> ItemEnv) \<Rightarrow> AppAction list \<times> bool" where
  "processFiles cancelling i [] env = ([], cancelling)"
| "processFiles cancelling i (file # rest) env =
     (if cancelling then ([CANCEL_COMPLETE], cancelling)
      else
        (case processFile i file (env i) of
           (acts, cancelling', left) \<Rightarrow>
             if left then (acts, cancelling')
             else
               (case processFiles cancelling' (Suc i) rest env of
                  (acts', cancelling'') \<Rightarrow> (acts @ acts', cancelling''))))"

text \<open>
  \<^verbatim>\<open>handleStart\<close>: the initialising dispatch, the loop over the files of the state the
  callback was created in, and the final dispatch, which depends on the ref. The ref
  still holds the value of the last render when the loop begins.
\<close>

definition handleStart :: "AppState \<Rightarrow> (nat \<Rightarrow> ItemEnv) \<Rightarrow> AppAction list" where
  "handleStart state env =
     (case processFiles (isCancellingOf state) 0 (files state) env of
        (acts, cancelling) \<Rightarrow>
          [REMOVE_BACKGROUND_BUTTON_CLICKED] @ acts
          @ [if \<not> cancelling then PROCESSING_COMPLETED else CANCEL_COMPLETE])"

text \<open>Whether the run ended with the ref set, that is, a cancellation was observed.\<close>

definition cancelObserved :: "AppState \<Rightarrow> (nat \<Rightarrow> ItemEnv) \<Rightarrow> bool" where
  "cancelObserved state env = snd (processFiles (isCancellingOf state) 0 (files state) env)"

text \<open>The states the reducer goes through on a list of actions, the first one included.\<close>

fun trace :: "AppState \<Rightarrow> AppAction list \<Rightarrow> AppState list" where
  "trace state [] = [state]"
| "trace state (a # acts) = state # trace (appReducer state a) acts"

text \<open>
  The states of a run: from the state in which the run record has just been created to
  the state after the last dispatch of \<^verbatim>\<open>handleStart\<close>.
\<close>

definition runStates :: "AppState \<Rightarrow> (nat \<Rightarrow> ItemEnv) \<Rightarrow> AppState list" where
  "runStates state env = tl (trace state (handleStart state env))"

definition runResult :: "AppState \<Rightarrow> (nat \<Rightarrow> ItemEnv) \<Rightarrow> AppState" where
  "runResult state env = foldl appReducer state (handleStart state env)"

text \<open>An environment in which nothing fails and nobody clicks.\<close>

definition quiet :: ItemEnv where
  "quiet = \<lparr>maskFails = False, applyFails = False, saveFails = False,
            cancelDuringMask = False, cancelDuringApply = False, cancelDuringSave = False\<rparr>"

definition itemFails :: "ItemEnv \<Rightarrow> bool" where
  "itemFails e \<longleftrightarrow> maskFails e \<or> applyFails e \<or> saveFails e"

definition countStatus :: "FileStatus \<Rightarrow> (string \<times> FileStatus) list \<Rightarrow> nat" where
  "countStatus st m = length (filter (\<lambda>x. x = st) (map snd m))"

section \<open>The compositor (applyMask in services/photo.ts)\<close>

text \<open>
  \<^verbatim>\<open>applyMask\<close> draws the mask, stretched to the size of the photo, on a fresh canvas,
  rewrites the alpha channel of the canvas in a loop over \<^verbatim>\<open>imageData.data\<close>, and then
  draws the photo with the composite operation \<^verbatim>\<open>source-in\<close>. The model starts from the
  decoded pixels: \<open>maskData\<close> is the \<^verbatim>\<open>Uint8ClampedArray\<close> that \<^verbatim>\<open>getImageData\<close> returns
  for the stretched mask, four bytes (red, green, blue, alpha) per pixel, and
  \<open>photoData\<close> holds the pixels of the photo in the same layout. Loading the images,
  the resampling done by \<^verbatim>\<open>drawImage\<close> and the PNG encoding done by \<^verbatim>\<open>toBlob\<close> belong to
  the browser and stay outside.
\<close>

type_synonym byte = "8 word"

text \<open>
  Storing a number into a \<^verbatim>\<open>Uint8ClampedArray\<close> (ECMAScript \<^verbatim>\<open>ToUint8Clamp\<close>): clamp to
  the range from 0 to 255, then round to the nearest integer, a tie going to the even
  one.
\<close>

definition toUint8Clamp :: "rat \<Rightarrow> byte" where
  "toUint8Clamp x =
     (let clamped = min (max x 0) 255; f = \<lfloor>clamped\<rfloor>
      in if clamped < rat_of_int f + 1 / 2 then word_of_int f
         else if rat_of_int f + 1 / 2 < clamped then word_of_int (f + 1)
         else if even f then word_of_int f
         else word_of_int (f + 1))"

text \<open>\<^verbatim>\<open>(data[i] + data[i + 1] + data[i + 2]) / 3\<close>, a sum and a quotient of numbers.\<close>

definition brightness :: "byte \<Rightarrow> byte \<Rightarrow> byte \<Rightarrow> rat" where
  "brightness r g b = (rat_of_nat (unat r) + rat_of_nat (unat g) + rat_of_nat (unat b)) / 3"

text \<open>
  The loop \<^verbatim>\<open>for (let i = 0; i < data.length; i += 4)\<close>. A last group of fewer than four
  bytes is left as it is: its brightness is \<^verbatim>\<open>NaN\<close> and the write goes past the end of
  the array, which a typed array ignores.
\<close>

fun lumaToAlpha :: "byte list \<Rightarrow> byte list" where
  "lumaToAlpha (r # g # b # a # rest) =
     r # g # b # toUint8Clamp (brightness r g b) # lumaToAlpha rest"
| "lumaToAlpha short = short"

text \<open>
  The composite operation \<^verbatim>\<open>source-in\<close> of the canvas, which the code selects before it
  draws the photo: the result is the source (the photo) scaled by the alpha of the
  backdrop, so its alpha is the product of the two alphas. The canvas keeps its pixels
  with premultiplied 8-bit colour: a colour channel is stored multiplied by alpha over
  255, and divided back when the pixels are read or encoded, each time rounded to the
  nearest value. A pixel whose alpha is 0 is transparent black. The products are exact
  where the alpha is 0 or 255.
\<close>

definition sourceInAlpha :: "byte \<Rightarrow> byte \<Rightarrow> byte" where
  "sourceInAlpha sa ba = toUint8Clamp (rat_of_nat (unat sa) * rat_of_nat (unat ba) / 255)"

definition premultiply :: "byte \<Rightarrow> byte \<Rightarrow> byte" where
  "premultiply c a = toUint8Clamp (rat_of_nat (unat c) * rat_of_nat (unat a) / 255)"

definition unpremultiply :: "byte \<Rightarrow> byte \<Rightarrow> byte" where
  "unpremultiply c a = toUint8Clamp (rat_of_nat (unat c) * 255 / rat_of_nat (unat a))"




section \<open>The output file name (createFileName in services/photo.ts)\<close>

text \<open>
  \<^verbatim>\<open>createFileName\<close> calls \<^verbatim>\<open>basename\<close> and \<^verbatim>\<open>extname\<close> of the Tauri path API and
  \<^verbatim>\<open>String.prototype.replace\<close> with a string pattern, which replaces the first occurrence
  of the pattern only.
\<close>

fun replaceFirst :: "string \<Rightarrow> string \<Rightarrow> string \<Rightarrow> string" where
  "replaceFirst pat rep [] = (if pat = [] then rep else [])"
| "replaceFirst pat rep (c # cs) =
     (if prefix pat (c # cs) then rep @ drop (length pat) (c # cs)
      else c # replaceFirst pat rep cs)"

text \<open>The components of a path between separators \<^verbatim>\<open>/\<close>.\<close>

fun splitPath :: "string \<Rightarrow> string list" where
  "splitPath [] = [] # []"
| "splitPath (c # cs) =
     (if c = CHR ''/'' then [] # splitPath cs
      else (case splitPath cs of [] \<Rightarrow> [c] # [] | seg # segs \<Rightarrow> (c # seg) # segs))"

text \<open>
  The two functions of the path API, which are not part of the repository, as their
  documentation describes them. \<^verbatim>\<open>basename\<close> is the last component of the path,
  trailing separators and \<^verbatim>\<open>.\<close> components ignored; the call is rejected when there is
  none or when it is \<^verbatim>\<open>..\<close>. \<^verbatim>\<open>extname\<close> is the part of that name after its last dot,
  without the dot (\<^verbatim>\<open>extname('/path/to/file.html')\<close> is \<^verbatim>\<open>'html'\<close>); the call is rejected
  when the name has no dot, or only a leading one. \<open>None\<close> is a rejected promise.
\<close>

definition basename :: "string \<Rightarrow> string option" where
  "basename p =
     (let segs = filter (\<lambda>seg. seg \<noteq> [] \<and> seg \<noteq> ''.'') (splitPath p)
      in if segs = [] \<or> last segs = ''..'' then None else Some (last segs))"

definition afterLastDot :: "string \<Rightarrow> string" where
  "afterLastDot nm = rev (takeWhile (\<lambda>c. c \<noteq> CHR ''.'') (rev nm))"

definition extname :: "string \<Rightarrow> string option" where
  "extname p =
     (case basename p of
        None \<Rightarrow> None
      | Some nm \<Rightarrow>
          if CHR ''.'' \<notin> set nm then None
          else if hd nm = CHR ''.'' \<and> CHR ''.'' \<notin> set (tl nm) then None
          else Some (afterLastDot nm))"

text \<open>
  The other convention for \<^verbatim>\<open>extname\<close>, that of Node's \<^verbatim>\<open>path.extname\<close>: the extension
  with its dot, and the empty string when there is none.
\<close>

definition extnameWithDot :: "string \<Rightarrow> string option" where
  "extnameWithDot p =
     (case extname p of None \<Rightarrow> Some [] | Some ext \<Rightarrow> Some (CHR ''.'' # ext))"

text \<open>
  \<^verbatim>\<open>createFileName\<close>, with the two calls of the path API as parameters. A rejected call
  rejects the whole function.
\<close>

definition createFileNameWith ::
  "(string \<Rightarrow> string option) \<Rightarrow> (string \<Rightarrow> string option) \<Rightarrow> string \<Rightarrow> string option" where
  "createFileNameWith base ext fileName =
     (case base fileName of
        None \<Rightarrow> None
      | Some baseFilename \<Rightarrow>
          (case ext fileName of
             None \<Rightarrow> None
           | Some extension \<Rightarrow>
               (let nameWithoutExt = replaceFirst extension [] baseFilename
                in Some (nameWithoutExt @ ''-clipped.png''))))"

definition createFileName :: "string \<Rightarrow> string option" where
  "createFileName fileName = createFileNameWith basename extname fileName"

text \<open>
  What the comment in the source and the specification ask for: the name with its last
  extension, dot included, taken off, then \<^verbatim>\<open>-clipped.png\<close>.
\<close>

definition stripLastExtension :: "string \<Rightarrow> string" where
  "stripLastExtension nm =
     (if CHR ''.'' \<in> set nm then take (length nm - Suc (length (afterLastDot nm))) nm else nm)"

definition expectedFileName :: "string \<Rightarrow> string" where
  "expectedFileName nm = stripLastExtension nm @ ''-clipped.png''"

section \<open>The component that keeps its state in hooks (App.tsx)\<close>

text \<open>
  The other implementation of the run holds \<^verbatim>\<open>files\<close>, \<^verbatim>\<open>outputFolder\<close>, \<^verbatim>\<open>isDragging\<close>,
  \<^verbatim>\<open>isProcessing\<close>, \<^verbatim>\<open>processedFiles\<close> and \<^verbatim>\<open>currentProcessingIndex\<close> in \<^verbatim>\<open>useState\<close> and
  the cancellation flag in the ref \<^verbatim>\<open>cancelledRef\<close>. Its names carry the suffix \<open>_v1\<close>,
  since the reducer's state uses the same ones.
\<close>

record AppState_v1 =
  files_v1 :: "FileItem list"
  outputFolder_v1 :: "string option"
  isDragging_v1 :: bool
  isProcessing_v1 :: bool
  processedFiles_v1 :: "(string \<times> FileStatus) list"
  currentProcessingIndex_v1 :: nat
  cancelledRef_v1 :: bool

definition fileStatus_v1 :: "AppState_v1 \<Rightarrow> string \<Rightarrow> FileStatus" where
  "fileStatus_v1 s fileId =
     (case map_get (processedFiles_v1 s) fileId of None \<Rightarrow> Pending | Some st \<Rightarrow> st)"

definition isComplete_v1 :: "AppState_v1 \<Rightarrow> bool" where
  "isComplete_v1 s =
     (if length (files_v1 s) = 0 then False
      else if length (processedFiles_v1 s) = 0 then False
      else list_all isFinished (map snd (processedFiles_v1 s)))"

text \<open>
  \<^verbatim>\<open>getProgress\<close> of this component evaluates
  \<^verbatim>\<open>Math.round((currentProcessingIndex / files.length) * 100)\<close>, in doubles; with no files
  the quotient is \<^verbatim>\<open>NaN\<close>, here \<open>None\<close>.
\<close>

definition getProgress_v1 :: "AppState_v1 \<Rightarrow> int option" where
  "getProgress_v1 s =
     (if isComplete_v1 s then Some 100
      else if length (files_v1 s) = 0 then None
      else Some (math_round
             (toDouble
                (toDouble
                   (rat_of_nat (currentProcessingIndex_v1 s) / rat_of_nat (length (files_v1 s)))
                 * 100))))"

definition noOutputFolder_v1 :: "AppState_v1 \<Rightarrow> bool" where
  "noOutputFolder_v1 s = (case outputFolder_v1 s of None \<Rightarrow> True | Some folder \<Rightarrow> folder = [])"

definition startButtonEnabled_v1 :: "AppState_v1 \<Rightarrow> bool" where
  "startButtonEnabled_v1 s \<longleftrightarrow>
     \<not> isComplete_v1 s \<and> \<not> isProcessing_v1 s
     \<and> \<not> (length (files_v1 s) = 0 \<or> noOutputFolder_v1 s \<or> isProcessing_v1 s)"

text \<open>
  The Cancel button is rendered while the run is processing and not complete. Its
  handler sets the ref, leaves the processing state and clears all processed files.
  After a click the start button is available again while the loop is still pending; a
  second run started at that moment is not part of the model.
\<close>

definition cancelButtonShown_v1 :: "AppState_v1 \<Rightarrow> bool" where
  "cancelButtonShown_v1 s \<longleftrightarrow> \<not> isComplete_v1 s \<and> isProcessing_v1 s"

definition cancelButtonClick_v1 :: "AppState_v1 \<Rightarrow> AppState_v1" where
  "cancelButtonClick_v1 s =
     s\<lparr>cancelledRef_v1 := True, isProcessing_v1 := False, processedFiles_v1 := []\<rparr>"

text \<open>An awaited call during which the user clicks Cancel, if the button is there.\<close>

definition await_v1 :: "bool \<Rightarrow> AppState_v1 \<Rightarrow> AppState_v1" where
  "await_v1 clicked s = (if clicked \<and> cancelButtonShown_v1 s then cancelButtonClick_v1 s else s)"

text \<open>\<^verbatim>\<open>setProcessedFiles((prev) => { const next = new Map(prev); next.set(id, st); return next })\<close>\<close>

definition setStatus_v1 :: "string \<Rightarrow> FileStatus \<Rightarrow> AppState_v1 \<Rightarrow> AppState_v1" where
  "setStatus_v1 fileId st s = s\<lparr>processedFiles_v1 := map_set (processedFiles_v1 s) fileId st\<rparr>"

text \<open>
  The body of the loop after its first check: the new state and whether the loop was
  left with \<^verbatim>\<open>break\<close>. This loop checks the flag once, after the three calls.
\<close>

definition processFile_v1 :: "nat \<Rightarrow> FileItem \<Rightarrow> ItemEnv \<Rightarrow> AppState_v1 \<Rightarrow> AppState_v1 \<times> bool" where
  "processFile_v1 i file e s =
     (let s0 = setStatus_v1 (file_id file) Processing (s\<lparr>currentProcessingIndex_v1 := i\<rparr>);
          s1 = await_v1 (cancelDuringMask e) s0
      in if maskFails e then (setStatus_v1 (file_id file) Error s1, False)
         else
           (let s2 = await_v1 (cancelDuringApply e) s1
            in if applyFails e then (setStatus_v1 (file_id file) Error s2, False)
               else
                 (let s3 = await_v1 (cancelDuringSave e) s2
                  in if saveFails e then (setStatus_v1 (file_id file) Error s3, False)
                     else if cancelledRef_v1 s3 then (s3, True)
                     else (setStatus_v1 (file_id file) Completed s3, False))))"

fun processFiles_v1 :: "nat \<Rightarrow> FileItem list \<Rightarrow> (nat \<Rightarrow> ItemEnv) \<Rightarrow> AppState_v1 \<Rightarrow> AppState_v1" where
  "processFiles_v1 i [] env s = s"
| "processFiles_v1 i (file # rest) env s =
     (if cancelledRef_v1 s then s
      else
        (case processFile_v1 i file (env i) s of
           (s', left) \<Rightarrow> if left then s' else processFiles_v1 (Suc i) rest env s'))"

text \<open>
  \<^verbatim>\<open>handleStart\<close> of this component returns at once when no output folder is set;
  otherwise it resets the flag and initialises the status map (\<open>initRun_v1\<close>), runs the
  loop and leaves the processing state.
\<close>

definition initRun_v1 :: "AppState_v1 \<Rightarrow> AppState_v1" where
  "initRun_v1 s =
     s\<lparr>cancelledRef_v1 := False,
       processedFiles_v1 := initialStatus (files_v1 s),
       currentProcessingIndex_v1 := 0,
       isProcessing_v1 := True\<rparr>"

definition handleStart_v1 :: "AppState_v1 \<Rightarrow> (nat \<Rightarrow> ItemEnv) \<Rightarrow> AppState_v1" where
  "handleStart_v1 s env =
     (if noOutputFolder_v1 s then s
      else (processFiles_v1 0 (files_v1 s) env (initRun_v1 s))\<lparr>isProcessing_v1 := False\<rparr>)"

section \<open>Notions used in the proofs\<close>

text \<open>The status an item ends with when the loop is not left during it.\<close>

definition itemOutcome :: "ItemEnv \<Rightarrow> FileStatus" where
  "itemOutcome e = (if itemFails e then Error else Completed)"

text \<open>
  The state of a run in progress over the files of \<open>base\<close>, whose ids are pairwise
  distinct: the statuses in the order of the files, the current index, the progress and
  the cancelling flag. And the state after \<^verbatim>\<open>PROCESSING_COMPLETED\<close>.
\<close>

definition runningState :: "AppState \<Rightarrow> FileStatus list \<Rightarrow> nat \<Rightarrow> int \<Rightarrow> bool \<Rightarrow> AppState" where
  "runningState base sts ci p c =
     base\<lparr>processingRequest := Some
       \<lparr>status = StatusProcessing, progress = p,
        processedFiles = zip (map file_id (files base)) sts,
        currentProcessingIndex = ci, isCancelling = c\<rparr>\<rparr>"

definition finishedState :: "AppState \<Rightarrow> FileStatus list \<Rightarrow> nat \<Rightarrow> bool \<Rightarrow> AppState" where
  "finishedState base sts ci c =
     base\<lparr>processingRequest := Some
       \<lparr>status = StatusSuccess, progress = 100,
        processedFiles = zip (map file_id (files base)) sts,
        currentProcessingIndex = ci, isCancelling = c\<rparr>\<rparr>"

text \<open>The keys of the status map are the ids of the files, in their order.\<close>

definition statusKeysMatch :: "FileItem list \<Rightarrow> AppState \<Rightarrow> bool" where
  "statusKeysMatch fs state \<longleftrightarrow>
     files state = fs \<and>
     (case processingRequest state of
        None \<Rightarrow> True
      | Some req \<Rightarrow> map fst (processedFiles req) = map file_id fs)"

text \<open>The progress is the percentage of finished entries of the status map.\<close>

definition progressMatches :: "AppState \<Rightarrow> bool" where
  "progressMatches state \<longleftrightarrow>
     (case processingRequest state of
        None \<Rightarrow> True
      | Some req \<Rightarrow>
          progress req = percentOf (completedCount (processedFiles req)) (length (files state)))"

definition runInvariant :: "FileItem list \<Rightarrow> AppState \<Rightarrow> bool" where
  "runInvariant fs state \<longleftrightarrow> statusKeysMatch fs state \<and> progressMatches state"

text \<open>
  From \<open>s\<close> to a later state \<open>s'\<close> that still has a run record, every finished status
  is kept.
\<close>

definition keepsFinished :: "AppState \<Rightarrow> AppState \<Rightarrow> bool" where
  "keepsFinished s s' \<longleftrightarrow>
     (processingRequest s' \<noteq> None \<longrightarrow>
        processingRequest s \<noteq> None \<and>
        (\<forall>fileId. isFinished (fileStatusOf s fileId) \<longrightarrow>
           fileStatusOf s' fileId = fileStatusOf s fileId))"

text \<open>
  In a list of statuses, in the order of the files, an entry is error only where one of
  the awaited calls of that item throws. And the states a run goes through before its
  last dispatch: the run record is absent, or it is processing and its statuses are of
  that kind.
\<close>

definition errorsOwn :: "(nat \<Rightarrow> ItemEnv) \<Rightarrow> FileStatus list \<Rightarrow> bool" where
  "errorsOwn env sts \<longleftrightarrow> (\<forall>j < length sts. sts ! j = Error \<longrightarrow> itemFails (env j))"

definition runShape :: "AppState \<Rightarrow> (nat \<Rightarrow> ItemEnv) \<Rightarrow> AppState \<Rightarrow> bool" where
  "runShape base env s \<longleftrightarrow>
     s = base\<lparr>processingRequest := None\<rparr>
     \<or> (\<exists>sts ci p c. s = runningState base sts ci p c \<and> length sts = length (files base)
            \<and> errorsOwn env sts)"

text \<open>
  What an observer reads off a state: the progress, the status of the run and the
  current index.
\<close>

definition progressOf :: "AppState \<Rightarrow> int option" where
  "progressOf state = map_option progress (processingRequest state)"

definition statusOf :: "AppState \<Rightarrow> RequestStatus option" where
  "statusOf state = map_option status (processingRequest state)"

definition currentIndexOf :: "AppState \<Rightarrow> nat option" where
  "currentIndexOf state = map_option currentProcessingIndex (processingRequest state)"

text \<open>
  The percentage of the specification, \<open>round (100 * finished / total)\<close>, in exact
  arithmetic.
\<close>

definition statusMapProgress :: "AppState \<Rightarrow> int" where
  "statusMapProgress state =
     math_round (100 * rat_of_nat (completedCount (processedFilesOf state))
                 / rat_of_nat (length (files state)))"

section \<open>Example inputs\<close>

definition exampleFile :: "string \<Rightarrow> FileItem" where
  "exampleFile i =
     \<lparr>file_id = i, file_name = i @ ''.png'', file_path = i @ ''.png'', file_size = 1,
      file_preview = ''blob:'' @ i\<rparr>"

definition twoFiles :: AppState where
  "twoFiles =
     \<lparr>isDragging = False, files = [exampleFile ''a'', exampleFile ''b''],
      outputFolder = Some ''out'', processingRequest = None\<rparr>"

text \<open>Forty files with the ids f, ff, fff and so on.\<close>

definition numberedFile :: "nat \<Rightarrow> FileItem" where
  "numberedFile i = exampleFile (replicate (Suc i) (CHR ''f''))"

definition fortyFiles :: AppState where
  "fortyFiles =
     \<lparr>isDragging = False, files = map numberedFile [0..<40],
      outputFolder = Some ''out'', processingRequest = None\<rparr>"

definition threeFiles :: AppState where
  "threeFiles =
     \<lparr>isDragging = False, files = [exampleFile ''a'', exampleFile ''b'', exampleFile ''c''],
      outputFolder = Some ''out'', processingRequest = None\<rparr>"

definition quietEnv :: "nat \<Rightarrow> ItemEnv" where
  "quietEnv i = quiet"

definition cancelSecond :: "nat \<Rightarrow> ItemEnv" where
  "cancelSecond i = (if i = 1 then quiet\<lparr>cancelDuringMask := True\<rparr> else quiet)"

definition cancelAndFailSecond :: "nat \<Rightarrow> ItemEnv" where
  "cancelAndFailSecond i =
     (if i = 1 then quiet\<lparr>cancelDuringMask := True, applyFails := True\<rparr> else quiet)"

definition failSecond :: "nat \<Rightarrow> ItemEnv" where
  "failSecond i = (if i = 1 then quiet\<lparr>applyFails := True\<rparr> else quiet)"

definition twoFiles_v1 :: AppState_v1 where
  "twoFiles_v1 =
     \<lparr>files_v1 = [exampleFile ''a'', exampleFile ''b''], outputFolder_v1 = Some ''out'',
      isDragging_v1 = False, isProcessing_v1 = False, processedFiles_v1 = [],
      currentProcessingIndex_v1 = 0, cancelledRef_v1 = False\<rparr>"


text \<open>
  The same run while the first awaited call of file a is pending, before any click.
\<close>

definition firstFileInFlight_v1 :: AppState_v1 where
  "firstFileInFlight_v1 =
     setStatus_v1 ''a'' Processing ((initRun_v1 twoFiles_v1)\<lparr>currentProcessingIndex_v1 := 0\<rparr>)"

definition threeFiles_v1 :: AppState_v1 where
  "threeFiles_v1 =
     \<lparr>files_v1 = [exampleFile ''a'', exampleFile ''b'', exampleFile ''c''],
      outputFolder_v1 = Some ''out'',
      isDragging_v1 = False, isProcessing_v1 = False, processedFiles_v1 = [],
      currentProcessingIndex_v1 = 0, cancelledRef_v1 = False\<rparr>"








definition noFolder_v1 :: AppState_v1 where
  "noFolder_v1 = twoFiles_v1\<lparr>outputFolder_v1 := None\<rparr>"

section \<open>Facts about the status map\<close>


lemma isFinished_simps [simp]:
  "\<not> isFinished Pending" "\<not> isFinished Processing" "isFinished Error" "isFinished Completed"
  by (simp_all add: isFinished_def)

lemma map_set_fresh: "k \<notin> fst ` set m \<Longrightarrow> map_set m k v = m @ [(k, v)]"
  by (induction m) auto

lemma map_set_nth:
  "distinct (map fst m) \<Longrightarrow> i < length m \<Longrightarrow> fst (m ! i) = k \<Longrightarrow> map_set m k v = m[i := (k, v)]"
proof (induction m arbitrary: i)
  case Nil
  then show ?case by simp
next
  case (Cons x m)
  show ?case
  proof (cases i)
    case 0
    with Cons.prems show ?thesis by (cases x) simp
  next
    case (Suc j)
    with Cons.prems have "fst (m ! j) = k" "j < length m" by simp_all
    then have "k \<in> fst ` set m" by (metis nth_mem imageI)
    moreover from Cons.prems have "fst x \<notin> fst ` set m" by simp
    ultimately have "fst x \<noteq> k" by blast
    with Cons Suc \<open>fst (m ! j) = k\<close> \<open>j < length m\<close> show ?thesis by (cases x) simp
  qed
qed

lemma map_set_zip:
  assumes "distinct ks" "i < length ks" "length vs = length ks"
  shows "map_set (zip ks vs) (ks ! i) v = zip ks (vs[i := v])"
proof -
  have "map_set (zip ks vs) (ks ! i) v = (zip ks vs)[i := (ks ! i, v)]"
    using assms by (intro map_set_nth) simp_all
  also have "\<dots> = zip ks (vs[i := v])"
    using update_zip [of ks vs i "(ks ! i, v)"] by (simp add: list_update_same_conv)
  finally show ?thesis .
qed

lemma map_get_map_set:
  "map_get (map_set m k v) k' = (if k' = k then Some v else map_get m k')"
  by (induction m) auto

lemma map_fst_map_set:
  "map fst (map_set m k v) = (if k \<in> set (map fst m) then map fst m else map fst m @ [k])"
  by (induction m) (auto simp del: set_map)

lemma keys_map_set: "set (map fst (map_set m k v)) = insert k (set (map fst m))"
  unfolding map_fst_map_set by auto

lemma foldl_map_set_fresh:
  "distinct (map fst m @ map file_id fs) \<Longrightarrow>
   foldl (\<lambda>m f. map_set m (file_id f) Pending) m fs = m @ map (\<lambda>f. (file_id f, Pending)) fs"
proof (induction fs arbitrary: m)
  case Nil
  then show ?case by simp
next
  case (Cons f fs)
  from Cons.prems have fresh: "file_id f \<notin> fst ` set m" by auto
  from Cons.prems have "distinct (map fst (m @ [(file_id f, Pending)]) @ map file_id fs)" by auto
  from Cons.IH [OF this] fresh show ?case by (simp add: map_set_fresh)
qed

lemma initialStatus_distinct:
  "distinct (map file_id fs) \<Longrightarrow> initialStatus fs = zip (map file_id fs) (replicate (length fs) Pending)"
proof -
  assume "distinct (map file_id fs)"
  then have "initialStatus fs = map (\<lambda>f. (file_id f, Pending)) fs"
    unfolding initialStatus_def using foldl_map_set_fresh [of "[]" fs] by simp
  also have "\<dots> = zip (map file_id fs) (replicate (length fs) Pending)"
    by (induction fs) simp_all
  finally show ?thesis .
qed

lemma initialStatus_get:
  "map_get (foldl (\<lambda>m f. map_set m (file_id f) Pending) m fs) k =
     (if k \<in> file_id ` set fs then Some Pending else map_get m k)"
  by (induction fs arbitrary: m) (auto simp: map_get_map_set)

lemma initialStatus_keys:
  "set (map fst (foldl (\<lambda>m f. map_set m (file_id f) Pending) m fs)) =
     set (map fst m) \<union> set (map file_id fs)"
  by (induction fs arbitrary: m) (simp_all add: keys_map_set del: set_map)

lemma map_get_append:
  "map_get (a @ b) k = (case map_get a k of None \<Rightarrow> map_get b k | Some x \<Rightarrow> Some x)"
  by (induction a) auto

lemma map_get_zip_nth:
  "distinct ks \<Longrightarrow> length ks = length vs \<Longrightarrow> i < length ks \<Longrightarrow> map_get (zip ks vs) (ks ! i) = Some (vs ! i)"
proof (induction ks arbitrary: vs i)
  case Nil
  then show ?case by simp
next
  case (Cons k ks)
  then obtain v vs' where vs: "vs = v # vs'" by (cases vs) auto
  show ?case
  proof (cases i)
    case 0
    then show ?thesis by (simp add: vs)
  next
    case (Suc j)
    with Cons.prems have "ks ! j \<in> set ks" by simp
    with Cons.prems have "k \<noteq> ks ! j" by auto
    with Cons Suc vs show ?thesis by simp
  qed
qed

lemma completedCount_zip:
  "length ks = length sts \<Longrightarrow> completedCount (zip ks sts) = length (filter isFinished sts)"
  by (simp add: completedCount_def)

lemma filter_finished_done: "list_all isFinished done \<Longrightarrow> filter isFinished done = done"
  by (simp add: list_all_iff)

lemma filter_finished_pending [simp]: "filter isFinished (replicate k Pending) = []"
  by (simp add: isFinished_def)

lemma itemOutcome_finished [simp]: "isFinished (itemOutcome e)"
  by (simp add: itemOutcome_def isFinished_def)

lemma toDouble_one: "toDouble 1 = 1"
  by code_simp

lemma toDouble_hundred: "toDouble 100 = 100"
  by code_simp

lemma percentOf_zero [simp]: "percentOf 0 n = 0"
  by (simp add: percentOf_def toDouble_def math_round_def floor_eq_iff)

lemma percentOf_all: "0 < n \<Longrightarrow> percentOf n n = 100"
  by (simp add: percentOf_def toDouble_one toDouble_hundred math_round_def floor_eq_iff)

text \<open>The statuses of a run in which exactly the file at index \<open>k\<close> failed.\<close>


lemma one_failure_outcomes:
  assumes "k < n" "itemFails (env k)" "\<forall>i<n. i \<noteq> k \<longrightarrow> \<not> itemFails (env i)"
  shows "map (\<lambda>j. itemOutcome (env j)) [0..<n] =
         replicate k Completed @ Error # replicate (n - Suc k) Completed"
  using assms by (intro nth_equalityI) (auto simp: nth_append nth_Cons' itemOutcome_def)

lemma one_failure_counts:
  assumes dist: "distinct ks" and k: "k < length ks"
    and m: "m = zip ks (replicate k Completed @ Error # replicate (length ks - Suc k) Completed)"
  shows "countStatus Error m = 1 \<and> countStatus Completed m = length ks - 1
       \<and> length m = length ks \<and> map_get m (ks ! k) = Some Error
       \<and> list_all isFinished (map snd m)"
proof -
  let ?sts = "replicate k Completed @ Error # replicate (length ks - Suc k) Completed"
  have len: "length ks = length ?sts" using k by simp
  have vals: "map snd m = ?sts"
    unfolding m using len by (simp del: replicate.simps)
  have "map_get (zip ks ?sts) (ks ! k) = Some (?sts ! k)"
    using dist len k by (intro map_get_zip_nth) simp_all
  then have g: "map_get m (ks ! k) = Some Error"
    by (simp add: m nth_append)
  have l: "length m = length ks"
    unfolding m using len by (simp del: replicate.simps)
  have ce: "countStatus Error m = 1" and cc: "countStatus Completed m = length ks - 1"
    unfolding countStatus_def vals using k by simp_all
  have fin: "list_all isFinished (map snd m)"
    unfolding vals by (auto simp: list_all_iff)
  from ce cc l g fin show ?thesis by blast
qed

section \<open>The reducer on the states of a run\<close>


lemma start_running:
  "distinct (map file_id (files s)) \<Longrightarrow>
   appReducer s REMOVE_BACKGROUND_BUTTON_CLICKED =
     runningState s (replicate (length (files s)) Pending) 0 0 False"
  by (simp add: runningState_def initialStatus_distinct)

lemma running_progress [simp]:
  "appReducer (runningState base sts ci p c) (PROCESSING_PROGRESS_CHANGED i) =
     runningState base sts i (percentOf i (length (files base))) c"
  by (simp add: runningState_def)

lemma running_click [simp]:
  "appReducer (runningState base sts ci p c) CANCEL_BUTTON_CLICKED = runningState base sts ci p True"
  by (simp add: runningState_def)

lemma running_cancel [simp]:
  "appReducer (runningState base sts ci p c) CANCEL_COMPLETE = base\<lparr>processingRequest := None\<rparr>"
  by (simp add: runningState_def)

lemma running_completed [simp]:
  "appReducer (runningState base sts ci p c) PROCESSING_COMPLETED = finishedState base sts ci c"
  by (simp add: runningState_def finishedState_def)

lemma running_status:
  assumes "distinct (map file_id (files base))" "i < length (files base)"
    "length sts = length (files base)"
  shows "appReducer (runningState base sts ci p c) (FILE_STATUS_CHANGED (file_id (files base ! i)) v) =
     runningState base (sts[i := v]) ci
       (percentOf (length (filter isFinished (sts[i := v]))) (length (files base))) c"
proof -
  let ?ks = "map file_id (files base)"
  have "map_set (zip ?ks sts) (file_id (files base ! i)) v = (zip ?ks sts)[i := (file_id (files base ! i), v)]"
    using assms by (intro map_set_nth) simp_all
  also have "\<dots> = zip ?ks (sts[i := v])"
  proof -
    have "?ks[i := file_id (files base ! i)] = ?ks"
      using assms by (simp add: list_update_same_conv)
    then show ?thesis
      using update_zip [of ?ks sts i "(file_id (files base ! i), v)"] by simp
  qed
  finally have m: "map_set (zip ?ks sts) (file_id (files base ! i)) v = zip ?ks (sts[i := v])" .
  show ?thesis
    using assms by (simp add: runningState_def updateMap_def m completedCount_zip Let_def)
qed

lemma runInvariant_running:
  "length sts = length (files base) \<Longrightarrow>
   runInvariant (files base) (runningState base sts ci p c) \<longleftrightarrow>
     p = percentOf (length (filter isFinished sts)) (length (files base))"
  by (simp add: runInvariant_def statusKeysMatch_def progressMatches_def runningState_def
      completedCount_zip)

lemma runInvariant_idle [simp]:
  "runInvariant (files base) (base\<lparr>processingRequest := None\<rparr>)"
  by (simp add: runInvariant_def statusKeysMatch_def progressMatches_def)

lemma statusKeysMatch_finished:
  "length sts = length (files base) \<Longrightarrow> statusKeysMatch (files base) (finishedState base sts ci c)"
  by (simp add: statusKeysMatch_def finishedState_def)

lemma progressMatches_finished:
  "length sts = length (files base) \<Longrightarrow> list_all isFinished sts \<Longrightarrow> files base \<noteq> [] \<Longrightarrow>
   progressMatches (finishedState base sts ci c)"
  by (simp add: progressMatches_def finishedState_def completedCount_zip filter_finished_done
      percentOf_all)

lemma keepsFinished_idle [simp]: "keepsFinished s (base\<lparr>processingRequest := None\<rparr>)"
  by (simp add: keepsFinished_def)

lemma keepsFinished_same [simp]:
  "keepsFinished (runningState base sts ci p c) (runningState base sts ci' p' c')"
  by (simp add: keepsFinished_def runningState_def fileStatusOf_def processedFilesOf_def)

lemma keepsFinished_finished [simp]:
  "keepsFinished (runningState base sts ci p c) (finishedState base sts ci' c')"
  by (simp add: keepsFinished_def runningState_def finishedState_def fileStatusOf_def
      processedFilesOf_def)

lemma keepsFinished_running:
  assumes "length done + Suc k = length (files base)" "\<not> isFinished v"
  shows "keepsFinished (runningState base (done @ v # replicate k Pending) ci p c)
           (runningState base (done @ v' # replicate k Pending) ci' p' c')"
proof -
  let ?ks = "map file_id (files base)"
  let ?i = "length done"
  have i: "?i < length ?ks" using assms by simp
  have split: "?ks = take ?i ?ks @ ?ks ! ?i # drop (Suc ?i) ?ks"
    using i by (rule id_take_nth_drop)
  have len: "length (take ?i ?ks) = length done" using i by simp
  have z: "zip ?ks (done @ w # replicate k Pending) =
        zip (take ?i ?ks) done @ (?ks ! ?i, w) # zip (drop (Suc ?i) ?ks) (replicate k Pending)" for w
    by (subst split) (simp add: zip_append [OF len])
  show ?thesis
    using assms(2)
    by (auto simp: keepsFinished_def runningState_def fileStatusOf_def processedFilesOf_def z
        map_get_append split: option.splits)
qed


section \<open>Traces\<close>


lemma trace_append:
  "trace s (as @ bs) = trace s as @ tl (trace (foldl appReducer s as) bs)"
  by (induction as arbitrary: s) (auto, (case_tac bs; simp))

lemma trace_nonempty [simp]: "trace s as \<noteq> []"
  by (cases as) simp_all

lemma hd_trace [simp]: "hd (trace s as) = s"
  by (cases as) simp_all

lemma last_trace [simp]: "last (trace s as) = foldl appReducer s as"
  by (induction as arbitrary: s) simp_all

lemma successively_trace_append:
  "successively R (trace s as) \<Longrightarrow> successively R (trace (foldl appReducer s as) bs) \<Longrightarrow>
   successively R (trace s (as @ bs))"
proof (induction as arbitrary: s)
  case Nil
  then show ?case by simp
next
  case (Cons a as)
  from Cons.prems(1) have 1: "successively R (trace (appReducer s a) as)"
    by (simp add: successively_Cons)
  from Cons.prems(1) have 2: "R s (appReducer s a)"
    by (simp add: successively_Cons)
  from Cons.IH [OF 1] Cons.prems(2) have "successively R (trace (appReducer s a) (as @ bs))"
    by simp
  with 2 show ?case by (simp add: successively_Cons)
qed

lemma list_all_trace_append:
  "list_all P (trace s as) \<Longrightarrow> list_all P (trace (foldl appReducer s as) bs) \<Longrightarrow>
   list_all P (trace s (as @ bs))"
proof -
  have "set (tl (trace t bs)) \<subseteq> set (trace t bs)" for t
    by (cases bs) auto
  then show "list_all P (trace s as) \<Longrightarrow> list_all P (trace (foldl appReducer s as) bs) \<Longrightarrow>
      list_all P (trace s (as @ bs))"
    by (auto simp: trace_append list_all_iff)
qed

section \<open>The loop of handleStart\<close>

text \<open>
  One pass of the loop body, started in the state in which the files before index
  \<open>length done\<close> are finished and the others pending: every state it goes through
  satisfies the invariant, no finished status is lost, and it ends either with the run
  record discarded (the loop was left) or with this file finished as \<open>itemOutcome\<close> says.
\<close>


lemma processFile_trace:
  assumes dist: "distinct (map file_id (files base))"
    and n: "length done + Suc k = length (files base)"
    and fin: "list_all isFinished done"
    and s: "s = runningState base (done @ Pending # replicate k Pending) ci
                  (percentOf (length done) (length (files base))) c"
    and pf: "processFile (length done) (files base ! length done) e = (acts, c', left)"
  shows "list_all (runInvariant (files base)) (trace s acts)
       \<and> successively keepsFinished (trace s acts)
       \<and> (if left then c' \<and> foldl appReducer s acts = base\<lparr>processingRequest := None\<rparr>
          else foldl appReducer s acts =
                 runningState base (done @ itemOutcome e # replicate k Pending) (length done)
                   (percentOf (Suc (length done)) (length (files base))) (c \<or> c'))"
proof -
  have i: "length done < length (files base)" using n by simp
  have len: "length (done @ v # replicate k Pending) = length (files base)" for v
    using n by simp
  note st = running_status [OF dist i len]
  have upd: "(done @ v # replicate k Pending)[length done := w] = done @ w # replicate k Pending" for v w
    by simp
  have inv: "runInvariant (files base) (runningState base (done @ v # replicate k Pending) ci' p' c'') \<longleftrightarrow>
      p' = percentOf (if isFinished v then Suc (length done) else length done) (length (files base))"
    for v ci' p' c''
    by (simp add: runInvariant_running [OF len] filter_finished_done [OF fin])
  have kf: "\<not> isFinished v \<Longrightarrow> keepsFinished (runningState base (done @ v # replicate k Pending) ci1 p1 c1)
           (runningState base (done @ w # replicate k Pending) ci2 p2 c2)" for v w ci1 p1 c1 ci2 p2 c2
    using keepsFinished_running [OF n] by simp
  have nf: "\<not> isFinished Pending" "\<not> isFinished Processing" "isFinished Error" "isFinished Completed"
    by (simp_all add: isFinished_def)
  show ?thesis
    using pf unfolding processFile_def s
    by (auto simp: Let_def clickCancel_def st upd inv kf nf filter_finished_done [OF fin]
        successively_Cons itemOutcome_def
        itemFails_def simp del: appReducer.simps split: if_splits)
qed

text \<open>The same for the whole loop, by induction on the files that remain.\<close>


lemma processFiles_trace:
  assumes dist: "distinct (map file_id (files base))"
    and fin: "list_all isFinished done"
    and rest: "drop (length done) (files base) = rest"
    and len: "length done \<le> length (files base)"
    and s: "s = runningState base (done @ replicate (length rest) Pending) ci
                  (percentOf (length done) (length (files base))) c"
    and pf: "processFiles cref (length done) rest env = (acts, c')"
  shows "list_all (runInvariant (files base)) (trace s acts)
       \<and> successively keepsFinished (trace s acts)
       \<and> (c' \<and> foldl appReducer s acts = base\<lparr>processingRequest := None\<rparr>
          \<or> (\<exists>ci' cst'. foldl appReducer s acts =
                runningState base
                  (done @ map (\<lambda>j. itemOutcome (env j)) [length done..<length (files base)]) ci'
                  (percentOf (length (files base)) (length (files base))) cst'))"
  using fin rest len s pf
proof (induction rest arbitrary: "done" ci c cref s acts c')
  case Nil
  then have n: "length done = length (files base)" by simp
  from Nil have acts: "acts = []" by simp
  have "runInvariant (files base) s"
    using Nil n by (simp add: runInvariant_running filter_finished_done)
  with Nil n acts show ?case by auto
next
  case (Cons f rest)
  let ?i = "length done"
  let ?n = "length (files base)"
  from Cons.prems(2) have i: "?i < ?n"
    by (metis drop_eq_Nil list.distinct(1) not_le)
  have f: "f = files base ! ?i"
    using Cons.prems(2) i by (metis nth_via_drop)
  have rest': "drop (Suc ?i) (files base) = rest"
    using Cons.prems(2) by (metis drop_Suc list.sel(3) tl_drop)
  have k: "?i + Suc (length rest) = ?n"
    using Cons.prems(2) i by (metis add_diff_inverse_nat diff_is_0_eq' length_Cons length_drop less_imp_le_nat
        less_numeral_extra(3) zero_less_diff add.commute)
  have s: "s = runningState base (done @ Pending # replicate (length rest) Pending) ci
              (percentOf ?i ?n) c"
    using Cons.prems(4) by simp
  have invs: "runInvariant (files base) s"
    unfolding s using k
    by (simp add: runInvariant_running filter_finished_done [OF Cons.prems(1)])
  show ?case
  proof (cases cref)
    case True
    with Cons.prems(5) have "acts = [CANCEL_COMPLETE]" "c'" by simp_all
    then show ?thesis
      using invs by (simp add: s successively_Cons del: appReducer.simps)
  next
    case False
    obtain a1 c1 left where p1: "processFile ?i (files base ! ?i) (env ?i) = (a1, c1, left)"
      by (metis prod_cases3)
    note item = processFile_trace [OF dist k Cons.prems(1) s p1]
    show ?thesis
    proof (cases left)
      case True
      with False p1 Cons.prems(5) have "acts = a1" "c' = c1" by (simp_all add: f)
      with item True show ?thesis by simp
    next
      case nl: False
      obtain a2 c2 where p2: "processFiles c1 (Suc ?i) rest env = (a2, c2)"
        by (metis surj_pair)
      from False nl p1 p2 Cons.prems(5) have acts: "acts = a1 @ a2" and c': "c' = c2"
        by (simp_all add: f)
      let ?done = "done @ [itemOutcome (env ?i)]"
      let ?s1 = "foldl appReducer s a1"
      have s1: "?s1 = runningState base (?done @ replicate (length rest) Pending) ?i
                  (percentOf (length ?done) ?n) (c \<or> c1)"
        using item nl by simp
      have ih: "list_all (runInvariant (files base)) (trace ?s1 a2)
           \<and> successively keepsFinished (trace ?s1 a2)
           \<and> (c2 \<and> foldl appReducer ?s1 a2 = base\<lparr>processingRequest := None\<rparr>
              \<or> (\<exists>ci' cst'. foldl appReducer ?s1 a2 =
                    runningState base
                      (?done @ map (\<lambda>j. itemOutcome (env j)) [length ?done..<?n]) ci'
                      (percentOf ?n ?n) cst'))"
      proof (rule Cons.IH [OF _ _ _ s1])
        show "list_all isFinished ?done" using Cons.prems(1) by simp
        show "drop (length ?done) (files base) = rest" using rest' by simp
        show "length ?done \<le> ?n" using i by simp
        show "processFiles c1 (length ?done) rest env = (a2, c2)" using p2 by simp
      qed
      have upt: "?done @ map (\<lambda>j. itemOutcome (env j)) [length ?done..<?n]
           = done @ map (\<lambda>j. itemOutcome (env j)) [?i..<?n]"
        using i by (simp add: upt_conv_Cons)
      from item ih show ?thesis
        unfolding acts c' upt
        by (simp add: list_all_trace_append successively_trace_append del: appReducer.simps)
    qed
  qed
qed

lemma runStates_unfold:
  "processFiles (isCancellingOf state) 0 (files state) env = (acts, c') \<Longrightarrow>
   runStates state env =
     trace (appReducer state REMOVE_BACKGROUND_BUTTON_CLICKED)
       (acts @ [if \<not> c' then PROCESSING_COMPLETED else CANCEL_COMPLETE])"
  by (simp add: runStates_def handleStart_def del: appReducer.simps)

lemma runResult_unfold:
  "processFiles (isCancellingOf state) 0 (files state) env = (acts, c') \<Longrightarrow>
   runResult state env =
     appReducer (foldl appReducer (appReducer state REMOVE_BACKGROUND_BUTTON_CLICKED) acts)
       (if \<not> c' then PROCESSING_COMPLETED else CANCEL_COMPLETE)"
  by (simp add: runResult_def handleStart_def del: appReducer.simps)

text \<open>
  The summary of a run over files with pairwise distinct ids: the invariants of its
  states, and its result, which is the state without a run record when a cancellation
  was observed and the finished state otherwise.
\<close>


lemma run_summary:
  assumes dist: "distinct (map file_id (files state))"
  shows "list_all (statusKeysMatch (files state)) (runStates state env)
       \<and> (files state \<noteq> [] \<longrightarrow> list_all progressMatches (runStates state env))
       \<and> successively keepsFinished (runStates state env)
       \<and> last (runStates state env) = runResult state env
       \<and> (if cancelObserved state env
          then runResult state env = state\<lparr>processingRequest := None\<rparr>
          else \<exists>ci c. runResult state env =
                 finishedState state
                   (map (\<lambda>j. itemOutcome (env j)) [0..<length (files state)]) ci c)"
proof -
  let ?n = "length (files state)"
  let ?s0 = "appReducer state REMOVE_BACKGROUND_BUTTON_CLICKED"
  obtain acts c' where pf: "processFiles (isCancellingOf state) 0 (files state) env = (acts, c')"
    by (metis surj_pair)
  let ?fa = "if \<not> c' then PROCESSING_COMPLETED else CANCEL_COMPLETE"
  let ?sL = "foldl appReducer ?s0 acts"
  have s0: "?s0 = runningState state ([] @ replicate ?n Pending) 0 (percentOf (length ([]::FileStatus list)) ?n) False"
    using start_running [OF dist] by simp
  have loop: "list_all (runInvariant (files state)) (trace ?s0 acts)
       \<and> successively keepsFinished (trace ?s0 acts)
       \<and> (c' \<and> ?sL = state\<lparr>processingRequest := None\<rparr>
          \<or> (\<exists>ci' cst'. ?sL =
                runningState state
                  ([] @ map (\<lambda>j. itemOutcome (env j)) [length ([]::FileStatus list)..<?n]) ci'
                  (percentOf ?n ?n) cst'))"
    by (rule processFiles_trace [OF dist _ _ _ s0, where cref = "isCancellingOf state"])
      (simp_all add: pf)
  have co: "cancelObserved state env = c'"
    by (simp add: cancelObserved_def pf)
  have rs: "runStates state env = trace ?s0 (acts @ [?fa])"
    by (rule runStates_unfold [OF pf])
  have rr: "runResult state env = appReducer ?sL ?fa"
    by (rule runResult_unfold [OF pf])
  have keys: "list_all (statusKeysMatch (files state)) (trace ?s0 acts)"
    and prog: "list_all progressMatches (trace ?s0 acts)"
    using loop by (simp_all add: list_all_iff runInvariant_def)
  have lastr: "last (runStates state env) = runResult state env"
    unfolding rs rr by (simp del: appReducer.simps)
  show ?thesis
  proof (cases c')
    case True
    from loop True have fin: "appReducer ?sL ?fa = state\<lparr>processingRequest := None\<rparr>"
      by (auto simp del: appReducer.simps) simp
    have "list_all (runInvariant (files state)) (trace ?sL [?fa])"
      using loop fin by (simp add: list_all_iff del: appReducer.simps) (metis last_in_set last_trace trace_nonempty)
    moreover have "successively keepsFinished (trace ?sL [?fa])"
      using fin by (simp add: successively_Cons del: appReducer.simps)
    ultimately show ?thesis
      using loop fin True unfolding rs rr co lastr [unfolded rs rr]
      apply (intro conjI impI)
          apply (rule list_all_trace_append [OF keys])
          apply (simp add: list_all_iff runInvariant_def del: appReducer.simps)
         apply (rule list_all_trace_append [OF prog])
         apply (simp add: list_all_iff runInvariant_def del: appReducer.simps)
        apply (rule successively_trace_append)
         apply simp
        apply simp
       apply (simp del: appReducer.simps)
      apply simp
      done
  next
    case False
    with loop obtain ci' cst' where sL: "?sL = runningState state (map (\<lambda>j. itemOutcome (env j)) [0..<?n]) ci' (percentOf ?n ?n) cst'"
      by auto
    have fin: "appReducer ?sL ?fa = finishedState state (map (\<lambda>j. itemOutcome (env j)) [0..<?n]) ci' cst'"
      using False by (simp add: sL del: appReducer.simps)
    have allfin: "list_all isFinished (map (\<lambda>j. itemOutcome (env j)) [0..<?n])"
      by (simp add: list_all_iff)
    have k2: "list_all (statusKeysMatch (files state)) (trace ?sL [?fa])"
      using keys fin statusKeysMatch_finished [of "map (\<lambda>j. itemOutcome (env j)) [0..<?n]" state ci' cst']
      by (simp add: list_all_iff del: appReducer.simps) (metis last_in_set last_trace trace_nonempty)
    have p2: "files state \<noteq> [] \<Longrightarrow> list_all progressMatches (trace ?sL [?fa])"
      using prog fin progressMatches_finished [OF _ allfin, of state ci' cst']
      by (simp add: list_all_iff del: appReducer.simps) (metis last_in_set last_trace trace_nonempty)
    have s2: "successively keepsFinished (trace ?sL [?fa])"
      unfolding trace.simps fin unfolding sL by (simp add: successively_Cons)
    have res: "\<exists>ci c. appReducer ?sL PROCESSING_COMPLETED =
        finishedState state (map (\<lambda>j. itemOutcome (env j)) [0..<?n]) ci c"
      using fin False by auto
    show ?thesis
      using False loop unfolding rs rr co lastr [unfolded rs rr]
      apply (intro conjI impI)
          apply (rule list_all_trace_append [OF keys k2])
         apply (rule list_all_trace_append [OF prog p2], assumption)
        apply (rule successively_trace_append [OF _ s2])
        apply simp
       apply (simp del: appReducer.simps)
      apply (simp add: res del: appReducer.simps)
      done
  qed
qed

text \<open>
  Before its last dispatch a run is in a state without run record or in a processing
  state in which an entry is error only where the item failed; so an error status is
  always the item's own, and the start button is not enabled while the record exists.
\<close>


lemma errorsOwn_snoc:
  "errorsOwn env done \<Longrightarrow> (v = Error \<longrightarrow> itemFails (env (length done))) \<Longrightarrow>
   errorsOwn env (done @ v # replicate k Pending)"
  unfolding errorsOwn_def
  by (auto simp: nth_append nth_Cons split: nat.splits)

lemma errorsOwn_outcome:
  "errorsOwn env done \<Longrightarrow> errorsOwn env (done @ [itemOutcome (env (length done))])"
  unfolding errorsOwn_def
  by (auto simp: nth_append itemOutcome_def less_Suc_eq split: if_splits)

lemma runShape_idle [simp]: "runShape base env (base\<lparr>processingRequest := None\<rparr>)"
  by (simp add: runShape_def)

lemma runShape_running:
  "length sts = length (files base) \<Longrightarrow> errorsOwn env sts \<Longrightarrow>
   runShape base env (runningState base sts ci p c)"
  unfolding runShape_def by blast


lemma trace_snoc:
  "trace s (as @ [a]) = trace s as @ [appReducer (foldl appReducer s as) a]"
  by (simp add: trace_append del: appReducer.simps)

lemma processFile_shape:
  assumes dist: "distinct (map file_id (files base))"
    and n: "length done + Suc k = length (files base)"
    and eo: "errorsOwn env done"
    and s: "s = runningState base (done @ Pending # replicate k Pending) ci p c"
    and pf: "processFile (length done) (files base ! length done) (env (length done)) = (acts, c', left)"
  shows "list_all (runShape base env) (trace s acts)"
proof -
  have i: "length done < length (files base)" using n by simp
  have len: "length (done @ v # replicate k Pending) = length (files base)" for v
    using n by simp
  note st = running_status [OF dist i len]
  have upd: "(done @ v # replicate k Pending)[length done := w] = done @ w # replicate k Pending" for v w
    by simp
  have sh: "runShape base env (runningState base (done @ v # replicate k Pending) ci' p' c'') \<longleftrightarrow> True"
    if "v = Error \<longrightarrow> itemFails (env (length done))" for v ci' p' c''
    using runShape_running [OF len errorsOwn_snoc [OF eo that]] by simp
  have nf: "Pending \<noteq> Error" "Processing \<noteq> Error" "Completed \<noteq> Error"
    by simp_all
  show ?thesis
    using pf unfolding processFile_def s
    by (auto simp: Let_def clickCancel_def st upd sh nf itemFails_def
        simp del: appReducer.simps split: if_splits)
qed

lemma processFiles_shape:
  assumes dist: "distinct (map file_id (files base))"
    and fin: "list_all isFinished done"
    and eo: "errorsOwn env done"
    and rest: "drop (length done) (files base) = rest"
    and len: "length done \<le> length (files base)"
    and s: "s = runningState base (done @ replicate (length rest) Pending) ci
                  (percentOf (length done) (length (files base))) c"
    and pf: "processFiles cref (length done) rest env = (acts, c')"
  shows "list_all (runShape base env) (trace s acts)"
  using fin eo rest len s pf
proof (induction rest arbitrary: "done" ci c cref s acts c')
  case Nil
  then have n: "length done = length (files base)" by simp
  from Nil have acts: "acts = []" by simp
  show ?case
    using Nil n acts by (simp add: runShape_running)
next
  case (Cons f rest)
  let ?i = "length done"
  let ?n = "length (files base)"
  from Cons.prems(3) have i: "?i < ?n"
    by (metis drop_eq_Nil list.distinct(1) not_le)
  have f: "f = files base ! ?i"
    using Cons.prems(3) i by (metis nth_via_drop)
  have rest': "drop (Suc ?i) (files base) = rest"
    using Cons.prems(3) by (metis drop_Suc list.sel(3) tl_drop)
  have "length (drop ?i (files base)) = Suc (length rest)"
    using Cons.prems(3) by simp
  then have k: "?i + Suc (length rest) = ?n" using i by simp
  have s: "s = runningState base (done @ Pending # replicate (length rest) Pending) ci
              (percentOf ?i ?n) c"
    using Cons.prems(5) by simp
  have shs: "runShape base env s"
    unfolding s using k errorsOwn_snoc [OF Cons.prems(2), of Pending "length rest"]
    by (intro runShape_running) simp_all
  show ?case
  proof (cases cref)
    case True
    with Cons.prems(6) have "acts = [CANCEL_COMPLETE]" by simp
    then show ?thesis
      using shs by (simp add: s del: appReducer.simps)
  next
    case False
    obtain a1 c1 left where p1: "processFile ?i (files base ! ?i) (env ?i) = (a1, c1, left)"
      by (metis prod_cases3)
    note item = processFile_trace [OF dist k Cons.prems(1) s p1]
    note shape = processFile_shape [OF dist k Cons.prems(2) s p1]
    show ?thesis
    proof (cases left)
      case True
      with False p1 Cons.prems(6) have "acts = a1" by (simp add: f)
      with shape show ?thesis by simp
    next
      case nl: False
      obtain a2 c2 where p2: "processFiles c1 (Suc ?i) rest env = (a2, c2)"
        by (metis surj_pair)
      from False nl p1 p2 Cons.prems(6) have acts: "acts = a1 @ a2"
        by (simp add: f)
      let ?done = "done @ [itemOutcome (env ?i)]"
      let ?s1 = "foldl appReducer s a1"
      have s1: "?s1 = runningState base (?done @ replicate (length rest) Pending) ?i
                  (percentOf (length ?done) ?n) (c \<or> c1)"
        using item nl by simp
      have ih: "list_all (runShape base env) (trace ?s1 a2)"
      proof (rule Cons.IH [OF _ _ _ _ s1])
        show "list_all isFinished ?done" using Cons.prems(1) by simp
        show "errorsOwn env ?done" using Cons.prems(2) by (rule errorsOwn_outcome)
        show "drop (length ?done) (files base) = rest" using rest' by simp
        show "length ?done \<le> ?n" using i by simp
        show "processFiles c1 (length ?done) rest env = (a2, c2)" using p2 by simp
      qed
      from shape ih show ?thesis
        unfolding acts by (rule list_all_trace_append)
    qed
  qed
qed

lemma run_shape:
  assumes dist: "distinct (map file_id (files state))"
  shows "list_all (runShape state env) (butlast (runStates state env))"
proof -
  let ?n = "length (files state)"
  let ?s0 = "appReducer state REMOVE_BACKGROUND_BUTTON_CLICKED"
  obtain acts c' where pf: "processFiles (isCancellingOf state) 0 (files state) env = (acts, c')"
    by (metis surj_pair)
  have s0: "?s0 = runningState state ([] @ replicate ?n Pending) 0 (percentOf (length ([]::FileStatus list)) ?n) False"
    using start_running [OF dist] by simp
  have "list_all (runShape state env) (trace ?s0 acts)"
    by (rule processFiles_shape [OF dist _ _ _ _ s0, where cref = "isCancellingOf state"])
      (simp_all add: pf errorsOwn_def)
  moreover have "butlast (runStates state env) = trace ?s0 acts"
    unfolding runStates_unfold [OF pf] trace_snoc by simp
  ultimately show ?thesis by simp
qed

lemma run_states_cases:
  assumes dist: "distinct (map file_id (files state))"
    and s: "s \<in> set (runStates state env)"
  shows "runShape state env s
       \<or> (\<exists>ci c. s = finishedState state (map (\<lambda>j. itemOutcome (env j)) [0..<length (files state)]) ci c)"
proof -
  have ne: "runStates state env \<noteq> []"
    by (simp add: runStates_def handleStart_def split: prod.splits)
  then have "runStates state env = butlast (runStates state env) @ [last (runStates state env)]"
    by simp
  then have "s \<in> set (butlast (runStates state env)) \<or> s = last (runStates state env)"
    using s by (metis Un_iff empty_iff insert_iff list.set(1) list.set(2) set_append)
  moreover have "s \<in> set (butlast (runStates state env)) \<Longrightarrow> runShape state env s"
    using run_shape [OF dist, of env] by (simp add: list_all_iff)
  moreover have "s = last (runStates state env) \<Longrightarrow> ?thesis"
    using run_summary [OF dist, of env] by (auto split: if_splits)
  ultimately show ?thesis by blast
qed


lemma run_not_startable:
  assumes dist: "distinct (map file_id (files state))"
    and s: "s \<in> set (runStates state env)"
    and r: "processingRequest s \<noteq> None"
  shows "\<not> startButtonEnabled s"
proof -
  from run_states_cases [OF dist s]
  consider "s = state\<lparr>processingRequest := None\<rparr>"
    | sts ci p c where "s = runningState state sts ci p c"
    | ci c where "s = finishedState state (map (\<lambda>j. itemOutcome (env j)) [0..<length (files state)]) ci c"
    unfolding runShape_def by blast
  then show ?thesis
  proof cases
    case 1
    with r show ?thesis by simp
  next
    case 2
    then show ?thesis
      by (simp add: startButtonEnabled_def startButtonDisabled_def isProcessing_def runningState_def)
  next
    case 3
    show ?thesis
    proof (cases "files state = []")
      case True
      then show ?thesis
        by (simp add: 3 startButtonEnabled_def startButtonDisabled_def finishedState_def)
    next
      case False
      then have "isComplete s"
        by (simp add: 3 isComplete_def processedFilesOf_def finishedState_def list_all_iff
            itemOutcome_finished)
      then show ?thesis by (simp add: startButtonEnabled_def)
    qed
  qed
qed

lemma run_processing:
  assumes dist: "distinct (map file_id (files state))"
    and s: "s \<in> set (butlast (runStates state env))"
    and r: "processingRequest s \<noteq> None"
  shows "isProcessing s"
proof -
  from run_shape [OF dist, of env] s have "runShape state env s"
    by (simp add: list_all_iff)
  with r show ?thesis
    by (auto simp: runShape_def isProcessing_def runningState_def)
qed

text \<open>The states of a run in which nothing fails and nobody clicks, after each file.\<close>


lemma processFile_quiet:
  "processFile i file quiet =
     ([PROCESSING_PROGRESS_CHANGED i, FILE_STATUS_CHANGED (file_id file) Processing,
       FILE_STATUS_CHANGED (file_id file) Completed], False, False)"
  by (simp add: processFile_def quiet_def clickCancel_def)

lemma trace_nth_0 [simp]: "trace s as ! 0 = s"
  by (cases as) simp_all

lemma trace_nth_Suc [simp]: "trace s (a # as) ! Suc m = trace (appReducer s a) as ! m"
  by simp

lemma trace_nth_3:
  "trace s (a1 # a2 # a3 # as) ! (3 + m) =
     trace (appReducer (appReducer (appReducer s a1) a2) a3) as ! m"
proof -
  have "3 + m = Suc (Suc (Suc m))" by simp
  then show ?thesis by (simp only: trace_nth_Suc)
qed

lemma quiet_trace_nth:
  assumes dist: "distinct (map file_id (files base))"
  shows "drop i (files base) = rest \<Longrightarrow> i + length rest = length (files base) \<Longrightarrow> k \<le> length rest \<Longrightarrow>
     \<exists>ci'. trace (runningState base (replicate i Completed @ replicate (length rest) Pending) ci
                   (percentOf i (length (files base))) c)
              (fst (processFiles False i rest quietEnv) @ tail_acts) ! (3 * k)
          = runningState base (replicate (i + k) Completed @ replicate (length rest - k) Pending) ci'
              (percentOf (i + k) (length (files base))) c"
proof (induction rest arbitrary: i k ci)
  case Nil
  then have "k = 0" by simp
  then show ?case by (intro exI [of _ ci]) simp
next
  case (Cons f rest)
  let ?n = "length (files base)"
  show ?case
  proof (cases k)
    case 0
    show ?thesis
      unfolding 0 by (rule exI [of _ ci]) simp
  next
    case (Suc k')
    have i: "i < ?n" using Cons.prems(2) by simp
    have f: "f = files base ! i"
      using Cons.prems(1) i by (metis nth_via_drop)
    have rest': "drop (Suc i) (files base) = rest"
      using Cons.prems(1) by (metis drop_Suc list.sel(3) tl_drop)
    obtain acts' c' where p2: "processFiles False (Suc i) rest quietEnv = (acts', c')"
      by (metis surj_pair)
    have acts: "fst (processFiles False i (f # rest) quietEnv) =
        [PROCESSING_PROGRESS_CHANGED i, FILE_STATUS_CHANGED (file_id f) Processing,
         FILE_STATUS_CHANGED (file_id f) Completed] @ acts'"
      by (simp add: quietEnv_def processFile_quiet p2)
    let ?s = "runningState base (replicate i Completed @ replicate (length (f # rest)) Pending) ci
                   (percentOf i ?n) c"
    let ?s' = "runningState base (replicate (Suc i) Completed @ replicate (length rest) Pending) i
                   (percentOf (Suc i) ?n) c"
    have len: "length (replicate i Completed @ v # replicate (length rest) Pending) = ?n" for v
      using Cons.prems(2) by simp
    have il: "i = length (replicate i Completed)" by simp
    have fin: "filter isFinished (replicate i Completed) = replicate i Completed" by simp
    have step: "appReducer (appReducer (appReducer ?s (PROCESSING_PROGRESS_CHANGED i))
                  (FILE_STATUS_CHANGED (file_id f) Processing))
                  (FILE_STATUS_CHANGED (file_id f) Completed) = ?s'"
      unfolding f
      by (simp add: running_status [OF dist i len] list_update_append fin replicate_app_Cons_same
          del: appReducer.simps)
    from Cons.IH [OF rest', of k' i] Cons.prems(2,3) Suc
    obtain ci' where ih: "trace ?s' (fst (processFiles False (Suc i) rest quietEnv) @ tail_acts) ! (3 * k')
          = runningState base (replicate (Suc i + k') Completed @ replicate (length rest - k') Pending) ci'
              (percentOf (Suc i + k') ?n) c"
      by auto
    have "trace ?s (fst (processFiles False i (f # rest) quietEnv) @ tail_acts) ! (3 * k)
        = trace ?s' (acts' @ tail_acts) ! (3 * k')"
      unfolding acts Suc using step
      by (simp add: trace_nth_3 replicate_app_Cons_same del: appReducer.simps trace.simps)
    with ih p2 Suc show ?thesis
      by (intro exI [of _ ci']) simp
  qed
qed

lemma quiet_run_state:
  assumes dist: "distinct (map file_id (files state))"
    and nc: "\<not> isCancellingOf state"
    and k: "k \<le> length (files state)"
  shows "\<exists>ci. runStates state quietEnv ! (3 * k) =
           runningState state
             (replicate k Completed @ replicate (length (files state) - k) Pending) ci
             (percentOf k (length (files state))) False"
proof -
  let ?n = "length (files state)"
  obtain acts c' where pf: "processFiles (isCancellingOf state) 0 (files state) quietEnv = (acts, c')"
    by (metis surj_pair)
  have acts: "acts = fst (processFiles False 0 (files state) quietEnv)"
    using pf nc by simp
  have s0: "appReducer state REMOVE_BACKGROUND_BUTTON_CLICKED =
      runningState state (replicate 0 Completed @ replicate ?n Pending) 0 (percentOf 0 ?n) False"
    using start_running [OF dist] by simp
  from quiet_trace_nth [OF dist, of 0 "files state" k 0 False
      "[if \<not> c' then PROCESSING_COMPLETED else CANCEL_COMPLETE]"] k
  show ?thesis
    unfolding runStates_unfold [OF pf] s0 acts by simp
qed

lemma fortyFiles_distinct: "distinct (map file_id (files fortyFiles))"
  by code_simp

text \<open>The ref is set at the end of the loop exactly when a click was dispatched.\<close>


lemma processFile_clicked:
  "processFile i file e = (acts, c', left) \<Longrightarrow> c' \<longleftrightarrow> CANCEL_BUTTON_CLICKED \<in> set acts"
  unfolding processFile_def
  by (auto simp: Let_def clickCancel_def split: if_splits)

lemma processFiles_clicked:
  "processFiles c i fs env = (acts, c') \<Longrightarrow> c' \<longleftrightarrow> c \<or> CANCEL_BUTTON_CLICKED \<in> set acts"
proof (induction fs arbitrary: c i acts c')
  case Nil
  then show ?case by auto
next
  case (Cons f fs)
  show ?case
  proof (cases c)
    case True
    with Cons.prems show ?thesis by auto
  next
    case False
    obtain a1 c1 left where p1: "processFile i f (env i) = (a1, c1, left)"
      by (metis prod_cases3)
    obtain a2 c2 where p2: "processFiles c1 (Suc i) fs env = (a2, c2)"
      by (metis surj_pair)
    from processFile_clicked [OF p1] Cons.IH [OF p2] Cons.prems False p1 p2
    show ?thesis by (auto split: if_splits)
  qed
qed

lemma clicked_observed:
  "CANCEL_BUTTON_CLICKED \<in> set (handleStart state env) \<Longrightarrow> cancelObserved state env"
proof -
  obtain acts c' where pf: "processFiles (isCancellingOf state) 0 (files state) env = (acts, c')"
    by (metis surj_pair)
  assume "CANCEL_BUTTON_CLICKED \<in> set (handleStart state env)"
  then have "CANCEL_BUTTON_CLICKED \<in> set acts"
    by (auto simp: handleStart_def pf split: if_splits)
  with processFiles_clicked [OF pf] show ?thesis
    by (simp add: cancelObserved_def pf)
qed

section \<open>The loop of the component with hooks\<close>

text \<open>
  When the flag is not set after the body of the loop, nobody clicked during it, the
  loop was not left, and the file has the status that \<open>itemOutcome\<close> says.
\<close>


lemma processFile_v1_uncancelled:
  assumes dist: "distinct (map file_id (files_v1 s))"
    and n: "length done + Suc k = length (files_v1 s)"
    and m: "processedFiles_v1 s = zip (map file_id (files_v1 s)) (done @ Pending # replicate k Pending)"
    and pf: "processFile_v1 (length done) (files_v1 s ! length done) e s = (s', left)"
    and nc: "\<not> cancelledRef_v1 s'"
  shows "\<not> left \<and> s' = s\<lparr>currentProcessingIndex_v1 := length done,
            processedFiles_v1 := zip (map file_id (files_v1 s)) (done @ itemOutcome e # replicate k Pending)\<rparr>"
proof -
  let ?ks = "map file_id (files_v1 s)"
  have i: "length done < length ?ks" using n by simp
  have id: "file_id (files_v1 s ! length done) = ?ks ! length done" using i by simp
  have len: "length (done @ v # replicate k Pending) = length ?ks" for v using n by simp
  have set: "map_set (zip ?ks (done @ v # replicate k Pending)) (?ks ! length done) w
       = zip ?ks (done @ w # replicate k Pending)" for v w
    using map_set_zip [OF dist i len, of v w] by simp
  show ?thesis
    using pf nc unfolding processFile_v1_def id
    by (auto simp: Let_def setStatus_v1_def await_v1_def cancelButtonClick_v1_def m set
        itemOutcome_def itemFails_def split: if_splits)
qed

lemma processFiles_v1_uncancelled:
  assumes dist: "distinct (map file_id (files_v1 s))"
    and fs: "drop (length done) (files_v1 s) = rest"
    and len: "length done \<le> length (files_v1 s)"
    and m: "processedFiles_v1 s = zip (map file_id (files_v1 s)) (done @ replicate (length rest) Pending)"
    and nc: "\<not> cancelledRef_v1 (processFiles_v1 (length done) rest env s)"
  shows "\<exists>ci. processFiles_v1 (length done) rest env s =
           s\<lparr>currentProcessingIndex_v1 := ci,
             processedFiles_v1 := zip (map file_id (files_v1 s))
               (done @ map (\<lambda>j. itemOutcome (env j)) [length done..<length (files_v1 s)])\<rparr>"
  using dist fs len m nc
proof (induction rest arbitrary: "done" s)
  case Nil
  then have "length done = length (files_v1 s)" by simp
  with Nil show ?case by (intro exI [of _ "currentProcessingIndex_v1 s"]) simp
next
  case (Cons f rest)
  let ?i = "length done"
  let ?n = "length (files_v1 s)"
  from Cons.prems(2) have i: "?i < ?n"
    by (metis drop_eq_Nil list.distinct(1) not_le)
  have f: "f = files_v1 s ! ?i"
    using Cons.prems(2) i by (metis nth_via_drop)
  have rest': "drop (Suc ?i) (files_v1 s) = rest"
    using Cons.prems(2) by (metis drop_Suc list.sel(3) tl_drop)
  have "length (drop ?i (files_v1 s)) = Suc (length rest)"
    using Cons.prems(2) by simp
  then have k: "?i + Suc (length rest) = ?n" using i by simp
  have m: "processedFiles_v1 s = zip (map file_id (files_v1 s)) (done @ Pending # replicate (length rest) Pending)"
    using Cons.prems(4) by simp
  obtain s' left where p1: "processFile_v1 ?i (files_v1 s ! ?i) (env ?i) s = (s', left)"
    by (metis surj_pair)
  have c0: "\<not> cancelledRef_v1 s"
    using Cons.prems(5) by auto
  have res: "processFiles_v1 ?i (f # rest) env s = (if left then s' else processFiles_v1 (Suc ?i) rest env s')"
    using c0 p1 by (simp add: f)
  have c1: "\<not> cancelledRef_v1 s'"
  proof
    assume c: "cancelledRef_v1 s'"
    then have "processFiles_v1 (Suc ?i) rest env s' = s'" by (cases rest) simp_all
    with res c Cons.prems(5) show False by (simp split: if_splits)
  qed
  from processFile_v1_uncancelled [OF Cons.prems(1) k m p1 c1]
  have nl: "\<not> left" and s': "s' = s\<lparr>currentProcessingIndex_v1 := ?i,
            processedFiles_v1 := zip (map file_id (files_v1 s))
              (done @ itemOutcome (env ?i) # replicate (length rest) Pending)\<rparr>"
    by simp_all
  let ?done = "done @ [itemOutcome (env ?i)]"
  have "\<exists>ci. processFiles_v1 (length ?done) rest env s' =
           s'\<lparr>currentProcessingIndex_v1 := ci,
             processedFiles_v1 := zip (map file_id (files_v1 s'))
               (?done @ map (\<lambda>j. itemOutcome (env j)) [length ?done..<length (files_v1 s')])\<rparr>"
  proof (rule Cons.IH)
    show "distinct (map file_id (files_v1 s'))" using Cons.prems(1) by (simp add: s')
    show "drop (length ?done) (files_v1 s') = rest" using rest' by (simp add: s')
    show "length ?done \<le> length (files_v1 s')" using i by (simp add: s')
    show "processedFiles_v1 s' = zip (map file_id (files_v1 s')) (?done @ replicate (length rest) Pending)"
      by (simp add: s')
    show "\<not> cancelledRef_v1 (processFiles_v1 (length ?done) rest env s')"
      using Cons.prems(5) res nl by simp
  qed
  then obtain ci where "processFiles_v1 (Suc ?i) rest env s' =
           s'\<lparr>currentProcessingIndex_v1 := ci,
             processedFiles_v1 := zip (map file_id (files_v1 s'))
               (?done @ map (\<lambda>j. itemOutcome (env j)) [Suc ?i..<length (files_v1 s')])\<rparr>"
    by auto
  with res nl i show ?case
    by (intro exI [of _ ci]) (simp add: s' upt_conv_Cons)
qed

lemma handleStart_v1_uncancelled:
  assumes dist: "distinct (map file_id (files_v1 s))"
    and folder: "\<not> noOutputFolder_v1 s"
    and nc: "\<not> cancelledRef_v1 (handleStart_v1 s env)"
  shows "\<exists>ci. handleStart_v1 s env =
           s\<lparr>cancelledRef_v1 := False, isProcessing_v1 := False, currentProcessingIndex_v1 := ci,
             processedFiles_v1 := zip (map file_id (files_v1 s))
               (map (\<lambda>j. itemOutcome (env j)) [0..<length (files_v1 s)])\<rparr>"
proof -
  let ?s0 = "s\<lparr>cancelledRef_v1 := False,
              processedFiles_v1 := initialStatus (files_v1 s),
              currentProcessingIndex_v1 := 0,
              isProcessing_v1 := True\<rparr>"
  have hs: "handleStart_v1 s env = (processFiles_v1 0 (files_v1 s) env ?s0)\<lparr>isProcessing_v1 := False\<rparr>"
    using folder by (simp add: handleStart_v1_def initRun_v1_def)
  have "\<exists>ci. processFiles_v1 (length ([]::FileStatus list)) (files_v1 s) env ?s0 =
           ?s0\<lparr>currentProcessingIndex_v1 := ci,
             processedFiles_v1 := zip (map file_id (files_v1 ?s0))
               ([] @ map (\<lambda>j. itemOutcome (env j)) [length ([]::FileStatus list)..<length (files_v1 ?s0)])\<rparr>"
  proof (rule processFiles_v1_uncancelled)
    show "distinct (map file_id (files_v1 ?s0))" using dist by simp
    show "drop (length ([]::FileStatus list)) (files_v1 ?s0) = files_v1 s" by simp
    show "length ([]::FileStatus list) \<le> length (files_v1 ?s0)" by simp
    show "processedFiles_v1 ?s0 = zip (map file_id (files_v1 ?s0)) ([] @ replicate (length (files_v1 s)) Pending)"
      using dist by (simp add: initialStatus_distinct)
    show "\<not> cancelledRef_v1 (processFiles_v1 (length ([]::FileStatus list)) (files_v1 s) env ?s0)"
      using nc by (simp add: hs)
  qed
  then obtain ci where "processFiles_v1 0 (files_v1 s) env ?s0 =
           ?s0\<lparr>currentProcessingIndex_v1 := ci,
             processedFiles_v1 := zip (map file_id (files_v1 s))
               (map (\<lambda>j. itemOutcome (env j)) [0..<length (files_v1 s)])\<rparr>"
    by auto
  then show ?thesis
    by (intro exI [of _ ci]) (simp add: hs)
qed





section \<open>The luma loop and the composite operation\<close>

text \<open>
  A third of a sum of three bytes, stored into the clamped array, is that third rounded
  to the nearest integer; no tie occurs.
\<close>


lemma clamp_third:
  assumes s: "s \<le> 765"
  shows "toUint8Clamp (rat_of_nat s / 3) = of_nat ((s + 1) div 3)"
proof -
  let ?x = "rat_of_nat s / 3"
  have lo: "0 \<le> ?x" by simp
  have "rat_of_nat s \<le> rat_of_nat 765" using s by (rule of_nat_mono)
  then have hi: "?x \<le> 255" by simp
  have cl: "min (max ?x 0) 255 = ?x" using lo hi by (simp add: min_def max_def)
  have fl: "\<lfloor>?x\<rfloor> = int (s div 3)"
    using floor_divide_of_nat_eq [of s 3, where ?'a = rat] by simp
  have lt: "?x < rat_of_int (int (s div 3)) + 1 / 2 \<longleftrightarrow> s mod 3 \<le> 1"
  proof -
    have "?x < rat_of_int (int (s div 3)) + 1 / 2 \<longleftrightarrow> rat_of_nat (2 * s) < rat_of_nat (6 * (s div 3) + 3)"
      by (simp add: field_simps)
    also have "\<dots> \<longleftrightarrow> 2 * s < 6 * (s div 3) + 3"
      by (rule of_nat_less_iff)
    also have "\<dots> \<longleftrightarrow> s mod 3 \<le> 1" by presburger
    finally show ?thesis .
  qed
  have gt: "rat_of_int (int (s div 3)) + 1 / 2 < ?x \<longleftrightarrow> s mod 3 = 2"
  proof -
    have "rat_of_int (int (s div 3)) + 1 / 2 < ?x \<longleftrightarrow> rat_of_nat (6 * (s div 3) + 3) < rat_of_nat (2 * s)"
      by (simp add: field_simps)
    also have "\<dots> \<longleftrightarrow> 6 * (s div 3) + 3 < 2 * s"
      by (rule of_nat_less_iff)
    also have "\<dots> \<longleftrightarrow> s mod 3 = 2" by presburger
    finally show ?thesis .
  qed
  have d1: "s mod 3 \<le> 1 \<Longrightarrow> (s + 1) div 3 = s div 3" by presburger
  have d2: "s mod 3 = 2 \<Longrightarrow> (s + 1) div 3 = s div 3 + 1" by presburger
  have m: "s mod 3 \<le> 1 \<or> s mod 3 = 2" by presburger
  show ?thesis
    unfolding toUint8Clamp_def cl Let_def fl lt gt
    using m d1 d2 by auto
qed

lemma unat_byte: "unat (w::byte) \<le> 255"
proof -
  have "unat w < 2 ^ LENGTH(8)" by (rule unsigned_less)
  then show ?thesis by simp
qed





lemma lumaToAlpha_length [simp]: "length (lumaToAlpha d) = length d"
  by (induction d rule: lumaToAlpha.induct) simp_all



lemma clamp_byte: "toUint8Clamp (rat_of_nat (unat (a::byte))) = a"
proof -
  have "rat_of_nat (unat a) = rat_of_nat (3 * unat a) / 3" by (simp del: of_nat_unat)
  moreover have "3 * unat a \<le> 765" using unat_byte [of a] by simp
  ultimately have "toUint8Clamp (rat_of_nat (unat a)) = of_nat ((3 * unat a + 1) div 3)"
    by (simp only: clamp_third)
  also have "(3 * unat a + 1) div 3 = unat a" by presburger
  finally show ?thesis by simp
qed

lemma sourceInAlpha_opaque [simp]: "sourceInAlpha 255 a = a"
proof -
  have "rat_of_nat (unat (255::byte)) * rat_of_nat (unat a) / 255 = rat_of_nat (unat a)"
    by (simp del: of_nat_unat)
  then show ?thesis unfolding sourceInAlpha_def by (simp only: clamp_byte)
qed

lemma premultiply_opaque [simp]: "premultiply c 255 = c"
proof -
  have "rat_of_nat (unat c) * rat_of_nat (unat (255::byte)) / 255 = rat_of_nat (unat c)"
    by (simp del: of_nat_unat)
  then show ?thesis unfolding premultiply_def by (simp only: clamp_byte)
qed

lemma unpremultiply_opaque [simp]: "unpremultiply c 255 = c"
proof -
  have "rat_of_nat (unat c) * 255 / rat_of_nat (unat (255::byte)) = rat_of_nat (unat c)"
    by (simp del: of_nat_unat)
  then show ?thesis unfolding unpremultiply_def by (simp only: clamp_byte)
qed


section \<open>Actions on a state without a run record\<close>

text \<open>
  C10. In a state whose \<open>processingRequest\<close> is absent, each of the actions
  \<^verbatim>\<open>FILE_STATUS_CHANGED\<close>, \<^verbatim>\<open>PROCESSING_PROGRESS_CHANGED\<close>, \<^verbatim>\<open>PROCESSING_COMPLETED\<close> and
  \<^verbatim>\<open>CANCEL_BUTTON_CLICKED\<close> returns the state unchanged: no failure, no run record
  created.
\<close>

theorem no_run_record_noop:
  assumes "processingRequest state = None"
  shows "appReducer state (FILE_STATUS_CHANGED fileId st) = state
       \<and> appReducer state (PROCESSING_PROGRESS_CHANGED index) = state
       \<and> appReducer state PROCESSING_COMPLETED = state
       \<and> appReducer state CANCEL_BUTTON_CLICKED = state"
  using assms by simp

text \<open>The initial state has no run record, and the four actions leave it as it is.\<close>

theorem no_run_record_noop_witness:
  "processingRequest initialState = None
   \<and> appReducer initialState (FILE_STATUS_CHANGED ''a'' Completed) = initialState
   \<and> appReducer initialState (PROCESSING_PROGRESS_CHANGED 3) = initialState
   \<and> appReducer initialState PROCESSING_COMPLETED = initialState
   \<and> appReducer initialState CANCEL_BUTTON_CLICKED = initialState"
proof -
  have h: "processingRequest initialState = None"
    by (simp add: initialState_def)
  show ?thesis
    using h no_run_record_noop [OF h, of "''a''" Completed 3] by simp
qed

section \<open>Progress during a run\<close>

text \<open>
  C1, as the code has it. In every state of a run of \<^verbatim>\<open>handleStart\<close> over a non-empty
  list of files with pairwise distinct ids, as long as the run record exists, the
  progress equals \<^verbatim>\<open>Math.round((finished / total) * 100)\<close>, evaluated in doubles as the
  code evaluates it, where \<open>finished\<close> counts the entries of the status map that are
  completed or error and \<open>total\<close> is the number of files, which does not change.
  \<^verbatim>\<open>FILE_STATUS_CHANGED\<close>, in any state with a run record, recomputes the progress from
  the updated map; \<^verbatim>\<open>PROCESSING_PROGRESS_CHANGED\<close> sets it by the same expression from
  the index and \<^verbatim>\<open>PROCESSING_COMPLETED\<close> sets it to 100, and in the order in which
  \<^verbatim>\<open>handleStart\<close> dispatches them these values agree with the one the map gives.
\<close>

theorem run_progress_matches_status_map:
  "(distinct (map file_id (files state)) \<and> files state \<noteq> []
      \<and> s \<in> set (runStates state env) \<and> processingRequest s \<noteq> None
    \<longrightarrow> progressOf s
          = Some (percentOf (completedCount (processedFilesOf s)) (length (files s)))
        \<and> files s = files state)
   \<and> (processingRequest state \<noteq> None \<longrightarrow>
        progressOf (appReducer state (FILE_STATUS_CHANGED fileId st)) =
          Some (percentOf
                  (completedCount (processedFilesOf (appReducer state (FILE_STATUS_CHANGED fileId st))))
                  (length (files state)))
        \<and> progressOf (appReducer state (PROCESSING_PROGRESS_CHANGED index)) =
          Some (percentOf index (length (files state)))
        \<and> progressOf (appReducer state PROCESSING_COMPLETED) = Some 100)"
proof (intro conjI impI)
  assume a: "distinct (map file_id (files state)) \<and> files state \<noteq> []
      \<and> s \<in> set (runStates state env) \<and> processingRequest s \<noteq> None"
  then have dist: "distinct (map file_id (files state))" by simp
  from run_summary [OF dist, of env] a
  have "progressMatches s" and "statusKeysMatch (files state) s"
    by (simp_all add: list_all_iff)
  with a show "progressOf s
          = Some (percentOf (completedCount (processedFilesOf s)) (length (files s)))"
    and "files s = files state"
    by (auto simp: progressMatches_def statusKeysMatch_def progressOf_def processedFilesOf_def)
next
  assume "processingRequest state \<noteq> None"
  then show "progressOf (appReducer state (FILE_STATUS_CHANGED fileId st)) =
          Some (percentOf
                  (completedCount (processedFilesOf (appReducer state (FILE_STATUS_CHANGED fileId st))))
                  (length (files state)))"
    and "progressOf (appReducer state (PROCESSING_PROGRESS_CHANGED index)) =
          Some (percentOf index (length (files state)))"
    and "progressOf (appReducer state PROCESSING_COMPLETED) = Some 100"
    by (auto simp: progressOf_def processedFilesOf_def Let_def)
qed

text \<open>
  Two files, the second of which fails in \<^verbatim>\<open>applyMask\<close>: the fourth state of the run
  has one finished file of two and progress 50; a status change of the second file to
  error takes it to 100, the index 1 gives 50, and completion sets 100.
\<close>

theorem run_progress_matches_status_map_witness:
  "distinct (map file_id (files twoFiles)) \<and> files twoFiles \<noteq> []
   \<and> runStates twoFiles failSecond ! 3 \<in> set (runStates twoFiles failSecond)
   \<and> processingRequest (runStates twoFiles failSecond ! 3) \<noteq> None
   \<and> completedCount (processedFilesOf (runStates twoFiles failSecond ! 3)) = 1
   \<and> length (files (runStates twoFiles failSecond ! 3)) = 2
   \<and> percentOf 1 2 = 50
   \<and> progressOf (runStates twoFiles failSecond ! 3) = Some 50
   \<and> progressOf (appReducer (runStates twoFiles failSecond ! 3) (FILE_STATUS_CHANGED ''b'' Error))
       = Some 100
   \<and> progressOf (appReducer (runStates twoFiles failSecond ! 3) (PROCESSING_PROGRESS_CHANGED 1))
       = Some 50
   \<and> progressOf (appReducer (runStates twoFiles failSecond ! 3) PROCESSING_COMPLETED) = Some 100"
proof -
  have h: "distinct (map file_id (files twoFiles)) \<and> files twoFiles \<noteq> []
     \<and> runStates twoFiles failSecond ! 3 \<in> set (runStates twoFiles failSecond)
     \<and> processingRequest (runStates twoFiles failSecond ! 3) \<noteq> None"
    by code_simp
  have c: "completedCount (processedFilesOf (runStates twoFiles failSecond ! 3)) = 1"
    and l: "length (files (runStates twoFiles failSecond ! 3)) = 2"
    and p: "percentOf 1 2 = 50"
    by code_simp+
  have w: "percentOf
             (completedCount (processedFilesOf
                (appReducer (runStates twoFiles failSecond ! 3) (FILE_STATUS_CHANGED ''b'' Error))))
             2 = 100"
    by code_simp
  from run_progress_matches_status_map [of twoFiles "runStates twoFiles failSecond ! 3" failSecond] h
  have 1: "progressOf (runStates twoFiles failSecond ! 3) = Some 50"
    unfolding c l p by blast
  from run_progress_matches_status_map
         [of "runStates twoFiles failSecond ! 3" "runStates twoFiles failSecond ! 3" failSecond
             "''b''" Error 1] h
  have 2: "progressOf (appReducer (runStates twoFiles failSecond ! 3) (FILE_STATUS_CHANGED ''b'' Error))
           = Some 100"
    and 3: "progressOf (appReducer (runStates twoFiles failSecond ! 3) (PROCESSING_PROGRESS_CHANGED 1))
           = Some 50"
    and 4: "progressOf (appReducer (runStates twoFiles failSecond ! 3) PROCESSING_COMPLETED) = Some 100"
    unfolding l w p by blast+
  from h c l p 1 2 3 4 show ?thesis by blast
qed

text \<open>
  C1 as stated does not hold: the progress is not \<open>round (100 * finished / total)\<close>
  in every state of a run. In a run over forty files in which nothing fails, the state
  after the twenty-third file has completed has 23 finished entries of 40 and progress
  57, because the product of the doubles \<open>23 / 40\<close> and 100 lies just below 57.5;
  the exact percentage 57.5 rounds to 58.
\<close>

theorem progress_rounding_counterexample:
  "distinct (map file_id (files fortyFiles))
   \<and> length (files (runStates fortyFiles quietEnv ! 69)) = 40
   \<and> completedCount (processedFilesOf (runStates fortyFiles quietEnv ! 69)) = 23
   \<and> progressOf (runStates fortyFiles quietEnv ! 69) = Some 57
   \<and> statusMapProgress (runStates fortyFiles quietEnv ! 69) = 58"
proof -
  have n: "length (files fortyFiles) = 40" by (simp add: fortyFiles_def)
  have nc: "\<not> isCancellingOf fortyFiles" by (simp add: isCancellingOf_def fortyFiles_def)
  have p: "percentOf 23 40 = 57" by code_simp
  have e: "math_round (100 * rat_of_nat 23 / rat_of_nat 40) = 58" by code_simp
  from quiet_run_state [OF fortyFiles_distinct nc, of 23] n
  obtain ci where "runStates fortyFiles quietEnv ! 69 =
      runningState fortyFiles (replicate 23 Completed @ replicate 17 Pending) ci
        (percentOf 23 40) False"
    by auto
  then have st: "runStates fortyFiles quietEnv ! 69 =
      runningState fortyFiles (replicate 23 Completed @ replicate 17 Pending) ci 57 False"
    by (simp only: p)
  have m: "processedFilesOf (runStates fortyFiles quietEnv ! 69) =
      zip (map file_id (files fortyFiles)) (replicate 23 Completed @ replicate 17 Pending)"
    by (simp add: st runningState_def processedFilesOf_def)
  have c: "completedCount (processedFilesOf (runStates fortyFiles quietEnv ! 69)) = 23"
    unfolding m by (subst completedCount_zip) (simp_all add: n)
  have f: "files (runStates fortyFiles quietEnv ! 69) = files fortyFiles"
    by (simp add: st runningState_def)
  have pr: "progressOf (runStates fortyFiles quietEnv ! 69) = Some 57"
    by (simp add: st runningState_def progressOf_def)
  have ex: "statusMapProgress (runStates fortyFiles quietEnv ! 69) = 58"
    unfolding statusMapProgress_def c f n using e by simp
  from fortyFiles_distinct n c f pr ex show ?thesis by simp
qed

section \<open>The keys of the status map\<close>

text \<open>
  C8. Throughout a run over files with pairwise distinct ids, whenever the run record
  exists, the keys of the status map are exactly the ids of the files that were in the
  list when the run started, one entry per file and in the order of the list, and the
  list of files is unchanged: no entry is added for another id and none is removed.
\<close>

theorem status_map_keys_fixed:
  assumes "distinct (map file_id (files state))"
    and "s \<in> set (runStates state env)" and "processingRequest s = Some req"
  shows "map fst (processedFiles req) = map file_id (files state) \<and> files s = files state"
proof -
  from run_summary [OF assms(1), of env] assms(2)
  have "statusKeysMatch (files state) s"
    by (simp add: list_all_iff)
  with assms(3) show ?thesis
    by (simp add: statusKeysMatch_def)
qed

text \<open>The state after the second of two files has failed: the keys are still a, b.\<close>

theorem status_map_keys_fixed_witness:
  "distinct (map file_id (files twoFiles))
   \<and> runStates twoFiles failSecond ! 6 \<in> set (runStates twoFiles failSecond)
   \<and> processingRequest (runStates twoFiles failSecond ! 6) =
       Some \<lparr>status = StatusProcessing, progress = 100,
             processedFiles = [(''a'', Completed), (''b'', Error)],
             currentProcessingIndex = 1, isCancelling = False\<rparr>
   \<and> map file_id (files twoFiles) = [''a'', ''b'']
   \<and> files (runStates twoFiles failSecond ! 6) = files twoFiles"
proof -
  have h1: "distinct (map file_id (files twoFiles))" by code_simp
  have h2: "runStates twoFiles failSecond ! 6 \<in> set (runStates twoFiles failSecond)" by code_simp
  have h3: "processingRequest (runStates twoFiles failSecond ! 6) =
       Some \<lparr>status = StatusProcessing, progress = 100,
             processedFiles = [(''a'', Completed), (''b'', Error)],
             currentProcessingIndex = 1, isCancelling = False\<rparr>" by code_simp
  from status_map_keys_fixed [OF h1 h2 h3] h1 h2 h3 show ?thesis by simp
qed

section \<open>Finished statuses\<close>




section \<open>Cancellation\<close>

text \<open>
  C2, as the code has it. In a run over files with pairwise distinct ids, a click on
  Cancel is always observed; a run in which a cancellation is observed ends in the
  state it started from with the run record absent, so it has no status at all, and a
  run in which none is observed ends with status success. The type of the status has no
  value for a cancelled run.
\<close>

theorem cancel_discards_run_record:
  assumes "distinct (map file_id (files state))"
  shows "(CANCEL_BUTTON_CLICKED \<in> set (handleStart state env) \<longrightarrow> cancelObserved state env)
       \<and> (cancelObserved state env \<longrightarrow>
            runResult state env = state\<lparr>processingRequest := None\<rparr>
            \<and> statusOf (runResult state env) = None)
       \<and> (\<not> cancelObserved state env \<longrightarrow> statusOf (runResult state env) = Some StatusSuccess)"
  using run_summary [OF assms, of env] clicked_observed [of state env]
  by (auto simp: statusOf_def finishedState_def)

text \<open>A cancelled run and a run that is not cancelled, over the same two files.\<close>

theorem cancel_discards_run_record_witness:
  "distinct (map file_id (files twoFiles))
   \<and> CANCEL_BUTTON_CLICKED \<in> set (handleStart twoFiles cancelSecond)
   \<and> cancelObserved twoFiles cancelSecond
   \<and> runResult twoFiles cancelSecond = twoFiles
   \<and> statusOf (runResult twoFiles cancelSecond) = None
   \<and> \<not> cancelObserved twoFiles failSecond
   \<and> statusOf (runResult twoFiles failSecond) = Some StatusSuccess"
proof -
  have h1: "distinct (map file_id (files twoFiles))" by code_simp
  have h2: "CANCEL_BUTTON_CLICKED \<in> set (handleStart twoFiles cancelSecond)" by code_simp
  have h3: "\<not> cancelObserved twoFiles failSecond" by code_simp
  have e: "twoFiles\<lparr>processingRequest := None\<rparr> = twoFiles" by code_simp
  from cancel_discards_run_record [OF h1, of cancelSecond] h2
  have "cancelObserved twoFiles cancelSecond"
    and "runResult twoFiles cancelSecond = twoFiles\<lparr>processingRequest := None\<rparr>"
    and "statusOf (runResult twoFiles cancelSecond) = None"
    by blast+
  moreover from cancel_discards_run_record [OF h1, of failSecond] h3
  have "statusOf (runResult twoFiles failSecond) = Some StatusSuccess"
    by blast
  ultimately show ?thesis using h1 h2 h3 e by simp
qed

text \<open>
  C2 as stated does not hold: the cancelled run over two files ends with
  \<^verbatim>\<open>CANCEL_COMPLETE\<close>, and its result is the state before the run, without a run record
  and so without a terminal status. In the component with hooks a cancelled run can
  read as complete: when the user clicks during \<^verbatim>\<open>generateMask\<close> of the second file and
  \<^verbatim>\<open>applyMask\<close> then throws, the cleared map receives the error entry of that file,
  every entry of the map is finished, and \<^verbatim>\<open>isComplete\<close> holds.
\<close>

theorem no_cancelled_status_counterexample:
  "CANCEL_BUTTON_CLICKED \<in> set (handleStart twoFiles cancelSecond)
   \<and> last (handleStart twoFiles cancelSecond) = CANCEL_COMPLETE
   \<and> statusOf (runResult twoFiles cancelSecond) = None
   \<and> runResult twoFiles cancelSecond = twoFiles
   \<and> cancelledRef_v1 (handleStart_v1 twoFiles_v1 cancelAndFailSecond)
   \<and> processedFiles_v1 (handleStart_v1 twoFiles_v1 cancelAndFailSecond) = [(''b'', Error)]
   \<and> isComplete_v1 (handleStart_v1 twoFiles_v1 cancelAndFailSecond)
   \<and> getProgress_v1 (handleStart_v1 twoFiles_v1 cancelAndFailSecond) = Some 100"
  by code_simp

section \<open>Starting a run\<close>

text \<open>
  C6, as the code has it. Starting a run never fails: neither \<^verbatim>\<open>handleStart\<close> nor the
  reducer returns or raises an error. The preconditions are enforced by the start
  button only. In the reducer-based component the button is rendered and enabled only
  when the list of files is not empty, an output folder is set and the run record is
  not processing; in a run over files with pairwise distinct ids the button is never
  enabled in a state that has a run record, and before the last dispatch of the run
  every state that has a run record is processing. The action
  \<^verbatim>\<open>REMOVE_BACKGROUND_BUTTON_CLICKED\<close> itself, in any state, replaces the run record by a
  fresh one: status processing, progress 0, current index 0, not cancelling, a status
  map whose keys are the ids of the files and in which every id is pending; the files
  and the output folder are unchanged. In the component with hooks the button is enabled
  only when the list is not empty, an output folder is set and the flag
  \<^verbatim>\<open>isProcessing\<close> is clear, and \<^verbatim>\<open>handleStart\<close> returns without changing the state when
  no output folder is set. The flag is set when a run starts, and the handler of the
  Cancel button clears it at once: after a click, with files and a folder present, the
  button is enabled again although \<^verbatim>\<open>handleStart\<close> is still awaiting the call in
  flight. So in that component the button does not exclude a run in flight.
\<close>

theorem start_is_guarded_by_button:
  "(startButtonEnabled state \<longrightarrow>
      files state \<noteq> [] \<and> \<not> noOutputFolder state \<and> \<not> isProcessing state)
   \<and> statusOf (appReducer state REMOVE_BACKGROUND_BUTTON_CLICKED) = Some StatusProcessing
   \<and> progressOf (appReducer state REMOVE_BACKGROUND_BUTTON_CLICKED) = Some 0
   \<and> currentIndexOf (appReducer state REMOVE_BACKGROUND_BUTTON_CLICKED) = Some 0
   \<and> \<not> isCancellingOf (appReducer state REMOVE_BACKGROUND_BUTTON_CLICKED)
   \<and> (\<forall>f \<in> set (files state).
         map_get (processedFilesOf (appReducer state REMOVE_BACKGROUND_BUTTON_CLICKED)) (file_id f)
           = Some Pending)
   \<and> set (map fst (processedFilesOf (appReducer state REMOVE_BACKGROUND_BUTTON_CLICKED)))
       = set (map file_id (files state))
   \<and> files (appReducer state REMOVE_BACKGROUND_BUTTON_CLICKED) = files state
   \<and> outputFolder (appReducer state REMOVE_BACKGROUND_BUTTON_CLICKED) = outputFolder state
   \<and> (distinct (map file_id (files state)) \<and> s \<in> set (runStates state env)
        \<and> processingRequest s \<noteq> None \<longrightarrow> \<not> startButtonEnabled s)
   \<and> (distinct (map file_id (files state)) \<and> s \<in> set (butlast (runStates state env))
        \<and> processingRequest s \<noteq> None \<longrightarrow> isProcessing s)
   \<and> (startButtonEnabled_v1 s1 \<longrightarrow>
        files_v1 s1 \<noteq> [] \<and> \<not> noOutputFolder_v1 s1 \<and> \<not> isProcessing_v1 s1)
   \<and> (noOutputFolder_v1 s1 \<longrightarrow> handleStart_v1 s1 env = s1)
   \<and> \<not> startButtonEnabled_v1 (initRun_v1 s1)
   \<and> (files_v1 s1 \<noteq> [] \<and> \<not> noOutputFolder_v1 s1 \<longrightarrow>
        startButtonEnabled_v1 (cancelButtonClick_v1 s1))
   \<and> (files_v1 s1 \<noteq> [] \<and> \<not> noOutputFolder_v1 s1 \<and> cancelButtonShown_v1 s1 \<longrightarrow>
        startButtonEnabled_v1 (await_v1 True s1))"
proof -
  have 1: "(startButtonEnabled state \<longrightarrow>
      files state \<noteq> [] \<and> \<not> noOutputFolder state \<and> \<not> isProcessing state)
   \<and> statusOf (appReducer state REMOVE_BACKGROUND_BUTTON_CLICKED) = Some StatusProcessing
   \<and> progressOf (appReducer state REMOVE_BACKGROUND_BUTTON_CLICKED) = Some 0
   \<and> currentIndexOf (appReducer state REMOVE_BACKGROUND_BUTTON_CLICKED) = Some 0
   \<and> \<not> isCancellingOf (appReducer state REMOVE_BACKGROUND_BUTTON_CLICKED)
   \<and> (\<forall>f \<in> set (files state).
         map_get (processedFilesOf (appReducer state REMOVE_BACKGROUND_BUTTON_CLICKED)) (file_id f)
           = Some Pending)
   \<and> set (map fst (processedFilesOf (appReducer state REMOVE_BACKGROUND_BUTTON_CLICKED)))
       = set (map file_id (files state))
   \<and> files (appReducer state REMOVE_BACKGROUND_BUTTON_CLICKED) = files state
   \<and> outputFolder (appReducer state REMOVE_BACKGROUND_BUTTON_CLICKED) = outputFolder state"
    by (auto simp: startButtonEnabled_def startButtonDisabled_def
      statusOf_def progressOf_def currentIndexOf_def isCancellingOf_def processedFilesOf_def
      initialStatus_def initialStatus_get initialStatus_keys
      simp del: set_map)
  have 2: "distinct (map file_id (files state)) \<and> s \<in> set (runStates state env)
        \<and> processingRequest s \<noteq> None \<longrightarrow> \<not> startButtonEnabled s"
    using run_not_startable [of state s env] by blast
  have 3: "distinct (map file_id (files state)) \<and> s \<in> set (butlast (runStates state env))
        \<and> processingRequest s \<noteq> None \<longrightarrow> isProcessing s"
    using run_processing [of state s env] by blast
  have 4: "(startButtonEnabled_v1 s1 \<longrightarrow>
        files_v1 s1 \<noteq> [] \<and> \<not> noOutputFolder_v1 s1 \<and> \<not> isProcessing_v1 s1)
   \<and> (noOutputFolder_v1 s1 \<longrightarrow> handleStart_v1 s1 env = s1)
   \<and> \<not> startButtonEnabled_v1 (initRun_v1 s1)"
    by (auto simp: startButtonEnabled_v1_def handleStart_v1_def initRun_v1_def)
  have 5: "files_v1 s1 \<noteq> [] \<and> \<not> noOutputFolder_v1 s1 \<longrightarrow>
        startButtonEnabled_v1 (cancelButtonClick_v1 s1)"
    by (simp add: startButtonEnabled_v1_def cancelButtonClick_v1_def isComplete_v1_def
        noOutputFolder_v1_def)
  have 6: "files_v1 s1 \<noteq> [] \<and> \<not> noOutputFolder_v1 s1 \<and> cancelButtonShown_v1 s1 \<longrightarrow>
        startButtonEnabled_v1 (await_v1 True s1)"
    using 5 by (simp add: await_v1_def)
  from 1 2 3 4 5 6 show ?thesis by (intro conjI) (erule conjE | assumption)+
qed

text \<open>
  A state in which the button is enabled, in both components; the seventh state of the
  run with a click during the second file, which is cancelling, still processing and
  has the button disabled; a state without an output folder, which \<^verbatim>\<open>handleStart\<close> of
  the component with hooks leaves unchanged; and the state of that component with the
  first file in flight, in which the button is not enabled before the click on Cancel
  and enabled after it.
\<close>

theorem start_is_guarded_by_button_witness:
  "startButtonEnabled twoFiles \<and> files twoFiles \<noteq> [] \<and> \<not> noOutputFolder twoFiles
   \<and> \<not> isProcessing twoFiles
   \<and> exampleFile ''b'' \<in> set (files twoFiles)
   \<and> map_get (processedFilesOf (appReducer twoFiles REMOVE_BACKGROUND_BUTTON_CLICKED))
        (file_id (exampleFile ''b'')) = Some Pending
   \<and> distinct (map file_id (files twoFiles))
   \<and> runStates twoFiles cancelSecond ! 6 \<in> set (runStates twoFiles cancelSecond)
   \<and> runStates twoFiles cancelSecond ! 6 \<in> set (butlast (runStates twoFiles cancelSecond))
   \<and> processingRequest (runStates twoFiles cancelSecond ! 6) \<noteq> None
   \<and> isCancellingOf (runStates twoFiles cancelSecond ! 6)
   \<and> \<not> startButtonEnabled (runStates twoFiles cancelSecond ! 6)
   \<and> isProcessing (runStates twoFiles cancelSecond ! 6)
   \<and> startButtonEnabled_v1 twoFiles_v1 \<and> files_v1 twoFiles_v1 \<noteq> []
   \<and> \<not> noOutputFolder_v1 twoFiles_v1 \<and> \<not> isProcessing_v1 twoFiles_v1
   \<and> noOutputFolder_v1 noFolder_v1 \<and> handleStart_v1 noFolder_v1 quietEnv = noFolder_v1
   \<and> files_v1 firstFileInFlight_v1 \<noteq> [] \<and> \<not> noOutputFolder_v1 firstFileInFlight_v1
   \<and> cancelButtonShown_v1 firstFileInFlight_v1
   \<and> \<not> startButtonEnabled_v1 firstFileInFlight_v1
   \<and> startButtonEnabled_v1 (cancelButtonClick_v1 firstFileInFlight_v1)
   \<and> startButtonEnabled_v1 (await_v1 True firstFileInFlight_v1)"
proof -
  have h1: "startButtonEnabled twoFiles" by code_simp
  have h2: "exampleFile ''b'' \<in> set (files twoFiles)" by code_simp
  have h3: "startButtonEnabled_v1 twoFiles_v1" by code_simp
  have h4: "noOutputFolder_v1 noFolder_v1" by code_simp
  have h5: "distinct (map file_id (files twoFiles))" by code_simp
  have h6: "runStates twoFiles cancelSecond ! 6 \<in> set (runStates twoFiles cancelSecond)"
    "runStates twoFiles cancelSecond ! 6 \<in> set (butlast (runStates twoFiles cancelSecond))"
    "processingRequest (runStates twoFiles cancelSecond ! 6) \<noteq> None"
    "isCancellingOf (runStates twoFiles cancelSecond ! 6)"
    by code_simp+
  have h7: "files_v1 firstFileInFlight_v1 \<noteq> []" "\<not> noOutputFolder_v1 firstFileInFlight_v1"
    "cancelButtonShown_v1 firstFileInFlight_v1" "\<not> startButtonEnabled_v1 firstFileInFlight_v1"
    by code_simp+
  note a = start_is_guarded_by_button
    [of twoFiles "runStates twoFiles cancelSecond ! 6" cancelSecond twoFiles_v1]
  note b = start_is_guarded_by_button
    [of twoFiles "runStates twoFiles cancelSecond ! 6" quietEnv noFolder_v1]
  note c = start_is_guarded_by_button
    [of twoFiles "runStates twoFiles cancelSecond ! 6" cancelSecond firstFileInFlight_v1]
  from a h1 h2 h3 h5 h6
  have a1: "files twoFiles \<noteq> []" "\<not> noOutputFolder twoFiles" "\<not> isProcessing twoFiles"
    "map_get (processedFilesOf (appReducer twoFiles REMOVE_BACKGROUND_BUTTON_CLICKED))
        (file_id (exampleFile ''b'')) = Some Pending"
    "\<not> startButtonEnabled (runStates twoFiles cancelSecond ! 6)"
    "isProcessing (runStates twoFiles cancelSecond ! 6)"
    "files_v1 twoFiles_v1 \<noteq> []" "\<not> noOutputFolder_v1 twoFiles_v1" "\<not> isProcessing_v1 twoFiles_v1"
    by blast+
  from b h4 have b1: "handleStart_v1 noFolder_v1 quietEnv = noFolder_v1"
    by blast
  from c h7 have c1: "startButtonEnabled_v1 (cancelButtonClick_v1 firstFileInFlight_v1)"
    "startButtonEnabled_v1 (await_v1 True firstFileInFlight_v1)"
    by blast+
  from h1 h2 h3 h4 h5 h6 h7 a1 b1 c1 show ?thesis by (intro conjI)
qed

text \<open>
  C6 as stated does not hold. In the initial state, with no file and no output folder,
  the action starts a run, and \<^verbatim>\<open>handleStart\<close> takes it to status success. In a state
  in which a run is processing, with file a completed and progress 50, the action does
  not fail either: it starts over, with file a pending and progress 0.
\<close>

theorem start_without_preconditions_counterexample:
  "files initialState = [] \<and> noOutputFolder initialState
   \<and> statusOf (appReducer initialState REMOVE_BACKGROUND_BUTTON_CLICKED) = Some StatusProcessing
   \<and> statusOf (runResult initialState quietEnv) = Some StatusSuccess
   \<and> isProcessing (runStates twoFiles quietEnv ! 3)
   \<and> fileStatusOf (runStates twoFiles quietEnv ! 3) ''a'' = Completed
   \<and> progressOf (runStates twoFiles quietEnv ! 3) = Some 50
   \<and> fileStatusOf (appReducer (runStates twoFiles quietEnv ! 3) REMOVE_BACKGROUND_BUTTON_CLICKED) ''a''
       = Pending
   \<and> progressOf (appReducer (runStates twoFiles quietEnv ! 3) REMOVE_BACKGROUND_BUTTON_CLICKED)
       = Some 0"
  by code_simp

section \<open>One failing item\<close>

text \<open>
  C7. Let the ids of the files be pairwise distinct, let exactly the item at index \<open>k\<close>
  fail, at mask generation, compositing or writing, and let no cancellation be
  observed. Then that item is marked error, the loop goes on to the items after it, and
  the run ends completed: status success, progress 100, exactly one error entry and
  \<open>N - 1\<close> completed entries. The same holds of the component with hooks, whose run ends
  not processing, complete, at 100 percent, with the same entries.
\<close>

theorem single_failure_isolated:
  assumes dist: "distinct (map file_id fs)"
    and k: "k < length fs" "itemFails (env k)"
    and others: "\<forall>i<length fs. i \<noteq> k \<longrightarrow> \<not> itemFails (env i)"
  shows "(files state = fs \<and> \<not> cancelObserved state env \<longrightarrow>
            statusOf (runResult state env) = Some StatusSuccess
            \<and> progressOf (runResult state env) = Some 100
            \<and> getProgress (runResult state env) = 100
            \<and> countStatus Error (processedFilesOf (runResult state env)) = 1
            \<and> countStatus Completed (processedFilesOf (runResult state env)) = length fs - 1
            \<and> length (processedFilesOf (runResult state env)) = length fs
            \<and> fileStatusOf (runResult state env) (file_id (fs ! k)) = Error)
       \<and> (files_v1 s1 = fs \<and> \<not> noOutputFolder_v1 s1 \<and> \<not> cancelledRef_v1 (handleStart_v1 s1 env) \<longrightarrow>
            \<not> isProcessing_v1 (handleStart_v1 s1 env)
            \<and> isComplete_v1 (handleStart_v1 s1 env)
            \<and> getProgress_v1 (handleStart_v1 s1 env) = Some 100
            \<and> countStatus Error (processedFiles_v1 (handleStart_v1 s1 env)) = 1
            \<and> countStatus Completed (processedFiles_v1 (handleStart_v1 s1 env)) = length fs - 1
            \<and> length (processedFiles_v1 (handleStart_v1 s1 env)) = length fs
            \<and> fileStatus_v1 (handleStart_v1 s1 env) (file_id (fs ! k)) = Error)"
proof (intro conjI impI)
  let ?n = "length fs"
  let ?ks = "map file_id fs"
  let ?sts = "replicate k Completed @ Error # replicate (length ?ks - Suc k) Completed"
  have sts: "map (\<lambda>j. itemOutcome (env j)) [0..<?n] = ?sts"
    using one_failure_outcomes [OF k others] by simp
  have kk: "k < length ?ks" and idk: "?ks ! k = file_id (fs ! k)" using k by simp_all
  note counts = one_failure_counts [OF dist kk refl, unfolded idk]
  {
    assume a: "files state = fs \<and> \<not> cancelObserved state env"
    with run_summary [of state env] dist obtain ci c where
      res: "runResult state env = finishedState state (map (\<lambda>j. itemOutcome (env j)) [0..<?n]) ci c"
      by auto
    have m: "processedFilesOf (runResult state env) = zip ?ks ?sts"
      using a by (simp add: res sts processedFilesOf_def finishedState_def)
    show "statusOf (runResult state env) = Some StatusSuccess"
      and "progressOf (runResult state env) = Some 100"
      and "getProgress (runResult state env) = 100"
      by (simp_all add: res statusOf_def progressOf_def getProgress_def finishedState_def)
    show "countStatus Error (processedFilesOf (runResult state env)) = 1"
      and "countStatus Completed (processedFilesOf (runResult state env)) = length fs - 1"
      and "length (processedFilesOf (runResult state env)) = length fs"
      and "fileStatusOf (runResult state env) (file_id (fs ! k)) = Error"
      unfolding m fileStatusOf_def using counts by simp_all
  }
  {
    assume a: "files_v1 s1 = fs \<and> \<not> noOutputFolder_v1 s1 \<and> \<not> cancelledRef_v1 (handleStart_v1 s1 env)"
    with handleStart_v1_uncancelled [of s1 env] dist obtain ci where
      res: "handleStart_v1 s1 env =
           s1\<lparr>cancelledRef_v1 := False, isProcessing_v1 := False, currentProcessingIndex_v1 := ci,
             processedFiles_v1 := zip (map file_id (files_v1 s1))
               (map (\<lambda>j. itemOutcome (env j)) [0..<length (files_v1 s1)])\<rparr>"
      by auto
    have m: "processedFiles_v1 (handleStart_v1 s1 env) = zip ?ks ?sts"
      using a by (simp add: res sts)
    have f: "files_v1 (handleStart_v1 s1 env) = fs"
      using a by (simp add: res)
    show "\<not> isProcessing_v1 (handleStart_v1 s1 env)"
      by (simp add: res)
    show c: "isComplete_v1 (handleStart_v1 s1 env)"
      unfolding isComplete_v1_def m f using counts k by auto
    show "getProgress_v1 (handleStart_v1 s1 env) = Some 100"
      using c by (simp add: getProgress_v1_def)
    show "countStatus Error (processedFiles_v1 (handleStart_v1 s1 env)) = 1"
      and "countStatus Completed (processedFiles_v1 (handleStart_v1 s1 env)) = length fs - 1"
      and "length (processedFiles_v1 (handleStart_v1 s1 env)) = length fs"
      and "fileStatus_v1 (handleStart_v1 s1 env) (file_id (fs ! k)) = Error"
      unfolding m fileStatus_v1_def using counts by simp_all
  }
qed

text \<open>Three files, the second of which fails in \<^verbatim>\<open>applyMask\<close>, in both components.\<close>

theorem single_failure_isolated_witness:
  "distinct (map file_id (files threeFiles))
   \<and> (1::nat) < length (files threeFiles) \<and> itemFails (failSecond 1)
   \<and> \<not> itemFails (failSecond 0) \<and> \<not> itemFails (failSecond 2)
   \<and> \<not> cancelObserved threeFiles failSecond
   \<and> files_v1 threeFiles_v1 = files threeFiles \<and> \<not> noOutputFolder_v1 threeFiles_v1
   \<and> \<not> cancelledRef_v1 (handleStart_v1 threeFiles_v1 failSecond)
   \<and> statusOf (runResult threeFiles failSecond) = Some StatusSuccess
   \<and> progressOf (runResult threeFiles failSecond) = Some 100
   \<and> getProgress (runResult threeFiles failSecond) = 100
   \<and> countStatus Error (processedFilesOf (runResult threeFiles failSecond)) = 1
   \<and> countStatus Completed (processedFilesOf (runResult threeFiles failSecond)) = 2
   \<and> fileStatusOf (runResult threeFiles failSecond) ''b'' = Error
   \<and> isComplete_v1 (handleStart_v1 threeFiles_v1 failSecond)
   \<and> getProgress_v1 (handleStart_v1 threeFiles_v1 failSecond) = Some 100
   \<and> countStatus Error (processedFiles_v1 (handleStart_v1 threeFiles_v1 failSecond)) = 1
   \<and> countStatus Completed (processedFiles_v1 (handleStart_v1 threeFiles_v1 failSecond)) = 2
   \<and> fileStatus_v1 (handleStart_v1 threeFiles_v1 failSecond) ''b'' = Error"
proof -
  have h1: "distinct (map file_id (files threeFiles))" by code_simp
  have h2: "1 < length (files threeFiles)" by code_simp
  have h3: "itemFails (failSecond 1)" by code_simp
  have f: "\<not> itemFails (failSecond 0)" "\<not> itemFails (failSecond 2)" by code_simp+
  have h4: "\<forall>i<length (files threeFiles). i \<noteq> 1 \<longrightarrow> \<not> itemFails (failSecond i)"
    by (simp add: failSecond_def itemFails_def quiet_def)
  have h5: "files threeFiles = files threeFiles \<and> \<not> cancelObserved threeFiles failSecond"
    by code_simp
  have h6: "files_v1 threeFiles_v1 = files threeFiles \<and> \<not> noOutputFolder_v1 threeFiles_v1
     \<and> \<not> cancelledRef_v1 (handleStart_v1 threeFiles_v1 failSecond)"
    by code_simp
  have n: "length (files threeFiles) - 1 = 2" by code_simp
  have b: "file_id (files threeFiles ! 1) = ''b''" by code_simp
  from single_failure_isolated [OF h1 h2 h3 h4, of threeFiles threeFiles_v1] h5 h6
  have "statusOf (runResult threeFiles failSecond) = Some StatusSuccess
     \<and> progressOf (runResult threeFiles failSecond) = Some 100
     \<and> getProgress (runResult threeFiles failSecond) = 100
     \<and> countStatus Error (processedFilesOf (runResult threeFiles failSecond)) = 1
     \<and> countStatus Completed (processedFilesOf (runResult threeFiles failSecond)) = 2
     \<and> fileStatusOf (runResult threeFiles failSecond) ''b'' = Error
     \<and> isComplete_v1 (handleStart_v1 threeFiles_v1 failSecond)
     \<and> getProgress_v1 (handleStart_v1 threeFiles_v1 failSecond) = Some 100
     \<and> countStatus Error (processedFiles_v1 (handleStart_v1 threeFiles_v1 failSecond)) = 1
     \<and> countStatus Completed (processedFiles_v1 (handleStart_v1 threeFiles_v1 failSecond)) = 2
     \<and> fileStatus_v1 (handleStart_v1 threeFiles_v1 failSecond) ''b'' = Error"
    unfolding n b by blast
  with h1 h2 h3 f h5 h6 show ?thesis by blast
qed

section \<open>The alpha channel of the result\<close>





section \<open>The derived file name\<close>

text \<open>
  C4 says that the derived name is the original name with only its final extension
  taken off, followed by \<^verbatim>\<open>-clipped.png\<close>. The code takes the first occurrence of the
  extension out of the name instead. For \<^verbatim>\<open>my.jpg_backup.jpg\<close> the result is not
  \<^verbatim>\<open>my.jpg_backup-clipped.png\<close>, whether \<^verbatim>\<open>extname\<close> returns the extension without its dot, as
  the path API used here does, or with it. Without the dot, the dot of the extension
  stays in every name: \<^verbatim>\<open>photo.JPG\<close> gives \<^verbatim>\<open>photo.-clipped.png\<close>.
\<close>

theorem createFileName_strips_first_occurrence:
  "createFileName ''my.jpg_backup.jpg'' = Some ''my._backup.jpg-clipped.png''
   \<and> createFileNameWith basename extnameWithDot ''my.jpg_backup.jpg''
       = Some ''my_backup.jpg-clipped.png''
   \<and> expectedFileName ''my.jpg_backup.jpg'' = ''my.jpg_backup-clipped.png''
   \<and> createFileName ''photo.JPG'' = Some ''photo.-clipped.png''
   \<and> createFileNameWith basename extnameWithDot ''photo.JPG'' = Some ''photo-clipped.png''
   \<and> expectedFileName ''photo.JPG'' = ''photo-clipped.png''
   \<and> createFileName ''a.b.png'' = Some ''a.b.-clipped.png''
   \<and> expectedFileName ''a.b.png'' = ''a.b-clipped.png''"
  by code_simp

end
